theory Spec2Isabelle
  imports Main
begin

section \<open>Data model\<close>

text \<open>
  The program walks Go syntax trees that the package loader has already parsed and
  type-checked.  The embedding keeps the parts of those trees the program reads.
  Three facilities of the loader are functions of a syntax node in the source and are
  stored at the node here:
  \<^item> \<open>fset.Position(pos)\<close> (a \<open>token.Position\<close>) is stored where the source has the
    \<open>token.Pos\<close>;
  \<^item> \<open>pkg.TypesInfo.ObjectOf(ident)\<close> is the field \<open>id_obj\<close> of the identifier
    (\<open>None\<close> is the nil object);
  \<^item> a pointer to a \<open>types.Signature\<close> is \<open>NilSig\<close> or an address \<open>SigAt a\<close>;
    pointer equality is equality of addresses.
  Pointers to packages and files are compared by the value they point to (a loaded
  package is determined by its \<open>ID\<close>).
\<close>

datatype sigptr = NilSig | SigAt nat

datatype gotype = Signature sigptr | OtherType

datatype object = Object (obj_Pkg: "string option") (obj_Type: gotype)

datatype ident = Ident (id_Name: string) (id_obj: "object option")

text \<open>The operand \<open>ce.Fun\<close> of a call expression, by the cases of the type switch.\<close>

datatype expr = IdentExpr "ident option" | SelectorExpr "ident option" | OtherExpr

datatype node = CallExpr expr | OtherNode

record position =
  Filename :: string
  Offset :: int
  Line :: int
  Column :: int

datatype comment = Comment (c_Pos: position) (c_End: position)

text \<open>
  A function declaration.  \<open>Body\<close> lists the nodes of the body in the order in which
  \<open>ast.Inspect\<close> visits them (depth first, a node before its children); the callback of
  \<open>processUnderlyingFunctions\<close> always returns true, so it sees every node.
\<close>

record funcDecl =
  Doc :: "comment option list option"
  Recv :: bool
  Name :: "ident option"
  fn_Pos :: position
  fn_End :: position
  Body :: "node list option"

text \<open>
  A file is read through its top-level declarations: a \<open>FuncDecl\<close> never stands inside
  another node than the file, so the callbacks of \<open>initialize\<close> and \<open>processFunction\<close>,
  which act on \<open>FuncDecl\<close> nodes only, see exactly these, in source order.
\<close>

datatype decl = FuncDecl funcDecl | GenDecl

record astFile =
  Decls :: "decl list"

record package =
  ID :: string
  pkg_Name :: string
  PkgPath :: string
  Syntax :: "astFile list"

record fileAndPkg =
  file' :: astFile
  pkg :: package

record parser =
  funcToFileAndPkg :: "sigptr \<rightharpoonup> fileAndPkg"
  functions' :: "package \<rightharpoonup> string"
  pkgOrder :: "package list"
  seen :: "sigptr \<Rightarrow> bool"

text \<open>
  Every panic of the program is a value of \<open>error\<close>.  \<open>RuntimePanic\<close> stands for the
  panics of the Go runtime (an index out of range, a nil dereference).
\<close>

datatype error =
    ManifestUnreadable
  | PackageLoadFailure
  | EntryPointNotFound string
  | SourceReadFailure
  | WorkingDirectoryFailure
  | RuntimePanic

text \<open>
  What the program reads from its environment: the working directory, whether a
  directory can be entered, the content of \<open>go.mod\<close> in the module directory, the result of
  \<open>packages.Load\<close> (\<open>None\<close> is a load error) and the files \<open>os.ReadFile\<close> can read.
\<close>

record world =
  getwd :: "string option"
  chdir :: "string \<Rightarrow> bool"
  gomod :: "string option"
  load :: "package list option"
  files :: "string \<rightharpoonup> string"

section \<open>Strings\<close>

text \<open>
  \<open>strings.Split(s, sep)\<close> for a separator of one character: the pieces between the
  separators, at least one piece.  \<open>w\<close> is the piece being read.
\<close>

fun splitFrom :: "char \<Rightarrow> string \<Rightarrow> string \<Rightarrow> string list" where
  "splitFrom c w [] = [w]"
| "splitFrom c w (x # xs) =
     (if x = c then w # splitFrom c [] xs else splitFrom c (w @ [x]) xs)"

definition splitOn :: "char \<Rightarrow> string \<Rightarrow> string list" where
  "splitOn c s = splitFrom c [] s"

definition newline :: char where
  "newline = CHR 0x0A"

text \<open>
  \<open>strings.Fields\<close>: the maximal runs of characters that are not white space, as
  \<open>unicode.IsSpace\<close> defines it.  A Go string is a sequence of bytes read as UTF-8: white
  space is one of six ASCII characters, or one of the code points U+0085, U+00A0, U+1680,
  U+2000 to U+200A, U+2028, U+2029, U+202F, U+205F and U+3000, each in its encoding of two
  or three bytes.  The first byte of such an encoding is never a byte inside another
  character, so the bytes can be read from left to right; a byte that is not valid
  UTF-8 is a character of its own and not white space.
\<close>

definition isSpace :: "char \<Rightarrow> bool" where
  "isSpace c = (c = CHR 0x09 \<or> c = CHR 0x0A \<or> c = CHR 0x0B \<or> c = CHR 0x0C
       \<or> c = CHR 0x0D \<or> c = CHR 0x20)"

definition unicodeSpaces :: "string list" where
  "unicodeSpaces =
     [[CHR 0xC2, CHR 0x85], [CHR 0xC2, CHR 0xA0], [CHR 0xE1, CHR 0x9A, CHR 0x80],
      [CHR 0xE2, CHR 0x80, CHR 0x80], [CHR 0xE2, CHR 0x80, CHR 0x81],
      [CHR 0xE2, CHR 0x80, CHR 0x82], [CHR 0xE2, CHR 0x80, CHR 0x83],
      [CHR 0xE2, CHR 0x80, CHR 0x84], [CHR 0xE2, CHR 0x80, CHR 0x85],
      [CHR 0xE2, CHR 0x80, CHR 0x86], [CHR 0xE2, CHR 0x80, CHR 0x87],
      [CHR 0xE2, CHR 0x80, CHR 0x88], [CHR 0xE2, CHR 0x80, CHR 0x89],
      [CHR 0xE2, CHR 0x80, CHR 0x8A], [CHR 0xE2, CHR 0x80, CHR 0xA8],
      [CHR 0xE2, CHR 0x80, CHR 0xA9], [CHR 0xE2, CHR 0x80, CHR 0xAF],
      [CHR 0xE2, CHR 0x81, CHR 0x9F], [CHR 0xE3, CHR 0x80, CHR 0x80]]"

text \<open>The number of bytes of the white-space character that \<open>s\<close> starts with; 0 when
  it starts with none.\<close>

definition spaceWidth :: "string \<Rightarrow> nat" where
  "spaceWidth s =
     (case s of
        [] \<Rightarrow> 0
      | c # cs \<Rightarrow>
          if isSpace c then 1
          else (case filter (\<lambda>u. take (length u) s = u) unicodeSpaces of
                  [] \<Rightarrow> 0
                | u # us \<Rightarrow> length u))"

text \<open>\<open>w\<close> is the field being read.\<close>

function fieldsFrom :: "string \<Rightarrow> string \<Rightarrow> string list" where
  "fieldsFrom w [] = (if w = [] then [] else [w])"
| "fieldsFrom w (c # cs) =
     (if 0 < spaceWidth (c # cs)
      then (if w = [] then fieldsFrom [] (drop (spaceWidth (c # cs)) (c # cs))
            else w # fieldsFrom [] (drop (spaceWidth (c # cs)) (c # cs)))
      else fieldsFrom (w @ [c]) cs)"
  by pat_completeness auto
termination
  by (relation "measure (\<lambda>(w, s). length s)") auto

definition Fields :: "string \<Rightarrow> string list" where
  "Fields s = fieldsFrom [] s"

section \<open>The Source Slicer\<close>

text \<open>
  The loop \<open>for i := from; i <= to; i++\<close> that writes \<open>lines[i]\<close> and a newline to the
  string builder \<open>sb\<close>.  An index outside the slice panics.
\<close>

function writeLines :: "string list \<Rightarrow> int \<Rightarrow> int \<Rightarrow> string \<Rightarrow> error + string" where
  "writeLines lines i to sb =
     (if i \<le> to then
        (if 0 \<le> i \<and> i < int (length lines)
         then writeLines lines (i + 1) to (sb @ lines ! nat i @ [newline])
         else Inl RuntimePanic)
      else Inr sb)"
  by pat_completeness auto
termination
  by (relation "measure (\<lambda>(lines, i, to, sb). nat (to + 1 - i))") auto

text \<open>The loop over \<open>fn.Doc.List\<close>; a nil comment is skipped.\<close>

fun writeComments :: "string list \<Rightarrow> comment option list \<Rightarrow> string \<Rightarrow> error + string" where
  "writeComments lines [] sb = Inr sb"
| "writeComments lines (None # cs) sb = writeComments lines cs sb"
| "writeComments lines (Some c # cs) sb =
     (case writeLines lines (Line (c_Pos c) - 1) (Line (c_End c) - 1) sb of
        Inl e \<Rightarrow> Inl e
      | Inr sb' \<Rightarrow> writeComments lines cs sb')"

definition extractSourceCode :: "(string \<rightharpoonup> string) \<Rightarrow> funcDecl \<Rightarrow> error + string" where
  "extractSourceCode fs fn =
     (case fs (Filename (fn_Pos fn)) of
        None \<Rightarrow> Inl SourceReadFailure
      | Some fileContent \<Rightarrow>
          let lines = splitOn newline fileContent;
              start = Line (fn_Pos fn) - 1
          in case (case Doc fn of None \<Rightarrow> Inr [] | Some cs \<Rightarrow> writeComments lines cs []) of
               Inl e \<Rightarrow> Inl e
             | Inr sb \<Rightarrow> writeLines lines start (Line (fn_End fn) - 1) sb)"

section \<open>The Call Graph Walker\<close>

text \<open>
  The callback of \<open>processFunction\<close> on one node of the file: the node is passed over
  (\<open>Inr None\<close>), it is the declaration of the wanted signature (\<open>Inr (Some fn)\<close>), or the
  type information has no object for the declared name and \<open>.Type()\<close> panics.
\<close>

definition matchDecl :: "sigptr \<Rightarrow> decl \<Rightarrow> error + funcDecl option" where
  "matchDecl funcSig n =
     (case n of
        GenDecl \<Rightarrow> Inr None
      | FuncDecl fn \<Rightarrow>
          (case Name fn of
             None \<Rightarrow> Inr None
           | Some name \<Rightarrow>
               (case id_obj name of
                  None \<Rightarrow> Inl RuntimePanic
                | Some obj \<Rightarrow>
                    (case obj_Type obj of
                       OtherType \<Rightarrow> Inr None
                     | Signature sig \<Rightarrow> if sig \<noteq> funcSig then Inr None else Inr (Some fn)))))"

text \<open>
  The callback of \<open>processUnderlyingFunctions\<close> on one node of the body, up to the
  recursive call: the signature the call resolves to, if any.
\<close>

definition callTarget :: "node \<Rightarrow> sigptr option" where
  "callTarget n =
     (case n of
        OtherNode \<Rightarrow> None
      | CallExpr fun \<Rightarrow>
          (case (case fun of IdentExpr i \<Rightarrow> i | SelectorExpr sel \<Rightarrow> sel | OtherExpr \<Rightarrow> None) of
             None \<Rightarrow> None
           | Some funcNode \<Rightarrow>
               (case id_obj funcNode of
                  None \<Rightarrow> None
                | Some obj \<Rightarrow>
                    (case obj_Pkg obj of
                       None \<Rightarrow> None
                     | Some funcPkg \<Rightarrow>
                         (case obj_Type obj of
                            OtherType \<Rightarrow> None
                          | Signature funcSig \<Rightarrow> Some funcSig)))))"

text \<open>The state change of lines 139 to 148: the package order, the accumulator, the
  visited set.\<close>

definition addFunction :: "fileAndPkg \<Rightarrow> sigptr \<Rightarrow> string \<Rightarrow> parser \<Rightarrow> parser" where
  "addFunction f funcSig funcSrc p =
     p\<lparr> pkgOrder := (if functions' p (pkg f) = None then pkgOrder p @ [pkg f] else pkgOrder p),
        functions' := (functions' p)(pkg f \<mapsto>
            (case functions' p (pkg f) of None \<Rightarrow> [] | Some s \<Rightarrow> s) @ [newline] @ funcSrc),
        seen := (seen p)(funcSig := True) \<rparr>"

text \<open>
  The depth is a Go \<open>int\<close>, of 64 bits: a mathematical integer from \<open>- 2 ^ 63\<close> up to
  \<open>2 ^ 63 - 1\<close>.  \<open>wrap64\<close> is the value that an operation of Go keeps of its
  mathematical result, so \<open>depth - 1\<close> of the source is \<open>wrap64 (depth - 1)\<close>: at the
  least integer it is the greatest.
\<close>

definition wrap64 :: "int \<Rightarrow> int" where
  "wrap64 x = (x + 2 ^ 63) mod 2 ^ 64 - 2 ^ 63"

text \<open>
  \<open>processFunction\<close> and \<open>processUnderlyingFunctions\<close>, each with the loop of its
  \<open>ast.Inspect\<close>.  The file system \<open>fs\<close> is what \<open>os.ReadFile\<close> sees.
\<close>

function processFunction :: "(string \<rightharpoonup> string) \<Rightarrow> sigptr \<Rightarrow> int \<Rightarrow> parser \<Rightarrow> error + parser"
  and processFunctionInspect ::
    "(string \<rightharpoonup> string) \<Rightarrow> fileAndPkg \<Rightarrow> sigptr \<Rightarrow> int \<Rightarrow> decl list \<Rightarrow> parser \<Rightarrow> error + parser"
  and processUnderlyingFunctions ::
    "(string \<rightharpoonup> string) \<Rightarrow> package \<Rightarrow> funcDecl \<Rightarrow> int \<Rightarrow> parser \<Rightarrow> error + parser"
  and processUnderlyingInspect ::
    "(string \<rightharpoonup> string) \<Rightarrow> package \<Rightarrow> int \<Rightarrow> node list \<Rightarrow> parser \<Rightarrow> error + parser"
where
  "processFunction fs funcSig depth p =
     (if seen p funcSig then Inr p
      else case funcToFileAndPkg p funcSig of
             None \<Rightarrow> Inr p
           | Some f \<Rightarrow> processFunctionInspect fs f funcSig depth (Decls (file' f)) p)"
| "processFunctionInspect fs f funcSig depth [] p = Inr p"
| "processFunctionInspect fs f funcSig depth (n # ns) p =
     (case matchDecl funcSig n of
        Inl e \<Rightarrow> Inl e
      | Inr None \<Rightarrow> processFunctionInspect fs f funcSig depth ns p
      | Inr (Some fn) \<Rightarrow>
          (case extractSourceCode fs fn of
             Inl err \<Rightarrow> Inl err
           | Inr funcSrc \<Rightarrow>
               (case processUnderlyingFunctions fs (pkg f) fn (wrap64 (depth - 1))
                       (addFunction f funcSig funcSrc p) of
                  Inl e \<Rightarrow> Inl e
                | Inr p' \<Rightarrow> processFunctionInspect fs f funcSig depth ns p')))"
| "processUnderlyingFunctions fs pk fn depth p =
     (if depth \<le> 0 then Inr p
      else case Body fn of
             None \<Rightarrow> Inr p
           | Some body \<Rightarrow> processUnderlyingInspect fs pk depth body p)"
| "processUnderlyingInspect fs pk depth [] p = Inr p"
| "processUnderlyingInspect fs pk depth (n # ns) p =
     (case callTarget n of
        None \<Rightarrow> processUnderlyingInspect fs pk depth ns p
      | Some funcSig \<Rightarrow>
          (case processFunction fs funcSig depth p of
             Inl e \<Rightarrow> Inl e
           | Inr p' \<Rightarrow> processUnderlyingInspect fs pk depth ns p'))"
  by pat_completeness auto
termination
proof -
  have below: "wrap64 x < 2 ^ 63" for x
    by (simp add: wrap64_def)
  have same: "wrap64 (d - 1) = d - 1" if "0 < d" and "d < 2 ^ 63" for d
    using that by (simp add: wrap64_def)
  have less: "wrap64 (d - 1) < d" if "0 < d" and "d < 2 ^ 63" for d
    using same [OF that] by simp
  have bound: "nat (wrap64 x) < 2 ^ 63" for x
    using below [of x] by (simp add: nat_less_iff)
  show ?thesis
    by (relation "measures
        [\<lambda>x. case x of
               Inl (Inl (fs, funcSig, depth, p)) \<Rightarrow>
                 (if 0 < depth \<and> depth < 2 ^ 63 then nat depth else 2 ^ 63)
             | Inl (Inr (fs, f, funcSig, depth, ns, p)) \<Rightarrow>
                 (if 0 < depth \<and> depth < 2 ^ 63 then nat depth else 2 ^ 63)
             | Inr (Inl (fs, pk, fn, depth, p)) \<Rightarrow>
                 (if depth \<le> 0 then 0
                  else if depth < 2 ^ 63 then nat depth else 2 ^ 63)
             | Inr (Inr (fs, pk, depth, ns, p)) \<Rightarrow>
                 (if 0 < depth \<and> depth < 2 ^ 63 then nat depth else 2 ^ 63),
         \<lambda>x. case x of
               Inl (Inl (fs, funcSig, depth, p)) \<Rightarrow> 3
             | Inl (Inr (fs, f, funcSig, depth, ns, p)) \<Rightarrow> 2
             | Inr (Inl (fs, pk, fn, depth, p)) \<Rightarrow> 5
             | Inr (Inr (fs, pk, depth, ns, p)) \<Rightarrow> 4,
         \<lambda>x. case x of
               Inl (Inl (fs, funcSig, depth, p)) \<Rightarrow> 0
             | Inl (Inr (fs, f, funcSig, depth, ns, p)) \<Rightarrow> length ns
             | Inr (Inl (fs, pk, fn, depth, p)) \<Rightarrow> 0
             | Inr (Inr (fs, pk, depth, ns, p)) \<Rightarrow> length ns]")
      (use below less bound in \<open>auto simp: not_le\<close>)
qed

definition newParser :: "(sigptr \<rightharpoonup> fileAndPkg) \<Rightarrow> parser" where
  "newParser m =
     \<lparr> funcToFileAndPkg = m, functions' = Map.empty, pkgOrder = [], seen = (\<lambda>s. False) \<rparr>"

section \<open>The Result Assembler\<close>

definition formatPkg :: "string \<Rightarrow> bool \<Rightarrow> string" where
  "formatPkg pkgName codeOnly = (if codeOnly then ''// '' @ pkgName else pkgName)"

definition formatFunctions :: "string \<Rightarrow> bool \<Rightarrow> string" where
  "formatFunctions fns codeOnly = (if codeOnly then fns else [CHR 0x60, CHR 0x60, CHR 0x60] @ fns @ [CHR 0x60, CHR 0x60, CHR 0x60])"

text \<open>Reading a Go map of strings: a missing key reads as the empty string.\<close>

definition lookupText :: "(package \<rightharpoonup> string) \<Rightarrow> package \<Rightarrow> string" where
  "lookupText m k = (case m k of None \<Rightarrow> [] | Some s \<Rightarrow> s)"

text \<open>The loop of \<open>toString\<close> from index \<open>k\<close> on, over the rest of \<open>p.pkgOrder\<close>.\<close>

fun toStringLoop :: "parser \<Rightarrow> bool \<Rightarrow> bool \<Rightarrow> int \<Rightarrow> package list \<Rightarrow> string \<Rightarrow> string" where
  "toStringLoop p excludeRoot codeOnly k [] result = result"
| "toStringLoop p excludeRoot codeOnly k (pk # rest) result =
     (if k = 0 \<and> excludeRoot then toStringLoop p excludeRoot codeOnly (k + 1) rest result
      else
        let r1 = (if k > 1 \<or> (k = 1 \<and> \<not> excludeRoot)
                  then result @ formatPkg (pkg_Name pk) codeOnly @ [newline] else result);
            r2 = r1 @ formatFunctions (lookupText (functions' p) pk) codeOnly;
            r3 = (if k < int (length (pkgOrder p)) - 1 then r2 @ [newline, newline] else r2)
        in toStringLoop p excludeRoot codeOnly (k + 1) rest r3)"

definition toString :: "parser \<Rightarrow> bool \<Rightarrow> bool \<Rightarrow> string" where
  "toString p excludeRoot codeOnly = toStringLoop p excludeRoot codeOnly 0 (pkgOrder p) []"

section \<open>The Symbol Index\<close>

text \<open>The loop of \<open>parseGoModFile\<close> over the lines of \<open>go.mod\<close>; \<open>fields[1]\<close> panics
  when a line holds the single word \<open>module\<close> or \<open>require\<close>.\<close>

fun parseGoModLines :: "string list \<Rightarrow> string list \<Rightarrow> error + string list" where
  "parseGoModLines [] goModPaths = Inr goModPaths"
| "parseGoModLines (line # rest) goModPaths =
     (let fields = Fields line in
      if length fields > 0 then
        (case (if hd fields = ''module'' \<or> hd fields = ''require''
               then (if length fields > 1 then Inr (fields ! 1) else Inl RuntimePanic)
               else Inr (hd fields)) of
           Inl e \<Rightarrow> Inl e
         | Inr pk \<Rightarrow>
             if pk \<noteq> [] \<and> pk \<noteq> '')'' \<and> pk \<noteq> ''('' \<and> pk \<noteq> ''require'' \<and> pk \<noteq> ''go''
             then parseGoModLines rest (goModPaths @ [pk])
             else parseGoModLines rest goModPaths)
      else parseGoModLines rest goModPaths)"

definition parseGoModFile :: "world \<Rightarrow> error + string list" where
  "parseGoModFile w =
     (case gomod w of
        None \<Rightarrow> Inl ManifestUnreadable
      | Some content \<Rightarrow> parseGoModLines (splitOn newline content) [])"

text \<open>\<open>loadPackages\<close>: a failure of \<open>go mod vendor\<close> only prints a warning.\<close>

definition loadPackages :: "world \<Rightarrow> error + package list" where
  "loadPackages w =
     (case load w of
        None \<Rightarrow> Inl PackageLoadFailure
      | Some pkgs \<Rightarrow> if length pkgs = 0 then Inl PackageLoadFailure else Inr pkgs)"

definition HasPrefix :: "string \<Rightarrow> string \<Rightarrow> bool" where
  "HasPrefix s pre = (length pre \<le> length s \<and> take (length pre) s = pre)"

fun isGoModPkg :: "string list \<Rightarrow> string \<Rightarrow> bool" where
  "isGoModPkg [] pkgPath = False"
| "isGoModPkg (path # rest) pkgPath =
     (if pkgPath = path \<or> HasPrefix pkgPath (path @ ''/'') then True
      else isGoModPkg rest pkgPath)"

text \<open>
  The callback of \<open>initialize\<close> on one node of a file.  The state is the pair of the
  variable \<open>funcSig\<close> and the map \<open>funcToFileAndPkg\<close>.  \<open>goModPaths[0]\<close> panics on an
  empty slice.
\<close>

definition initializeDecl ::
  "string list \<Rightarrow> string \<Rightarrow> package \<Rightarrow> astFile \<Rightarrow> decl
     \<Rightarrow> sigptr \<times> (sigptr \<rightharpoonup> fileAndPkg) \<Rightarrow> error + sigptr \<times> (sigptr \<rightharpoonup> fileAndPkg)" where
  "initializeDecl goModPaths funcName pk fl n st =
     (case n of
        GenDecl \<Rightarrow> Inr st
      | FuncDecl fn \<Rightarrow>
          (case Name fn of
             None \<Rightarrow> Inr st
           | Some name \<Rightarrow>
               (case id_obj name of
                  None \<Rightarrow> Inr st
                | Some obj \<Rightarrow>
                    (case obj_Type obj of
                       OtherType \<Rightarrow> Inr st
                     | Signature sig \<Rightarrow>
                         if sig = NilSig then Inr st
                         else
                           (case goModPaths of
                              [] \<Rightarrow> Inl RuntimePanic
                            | root # others \<Rightarrow>
                                Inr (if PkgPath pk = root \<and> id_Name name = funcName
                                     then sig else fst st,
                                     (snd st)(sig \<mapsto> \<lparr> file' = fl, pkg = pk \<rparr>)))))))"

fun initializeDecls ::
  "string list \<Rightarrow> string \<Rightarrow> package \<Rightarrow> astFile \<Rightarrow> decl list
     \<Rightarrow> sigptr \<times> (sigptr \<rightharpoonup> fileAndPkg) \<Rightarrow> error + sigptr \<times> (sigptr \<rightharpoonup> fileAndPkg)" where
  "initializeDecls goModPaths funcName pk fl [] st = Inr st"
| "initializeDecls goModPaths funcName pk fl (n # ns) st =
     (case initializeDecl goModPaths funcName pk fl n st of
        Inl e \<Rightarrow> Inl e
      | Inr st' \<Rightarrow> initializeDecls goModPaths funcName pk fl ns st')"

fun initializeFiles ::
  "string list \<Rightarrow> string \<Rightarrow> package \<Rightarrow> astFile list
     \<Rightarrow> sigptr \<times> (sigptr \<rightharpoonup> fileAndPkg) \<Rightarrow> error + sigptr \<times> (sigptr \<rightharpoonup> fileAndPkg)" where
  "initializeFiles goModPaths funcName pk [] st = Inr st"
| "initializeFiles goModPaths funcName pk (fl # fls) st =
     (case initializeDecls goModPaths funcName pk fl (Decls fl) st of
        Inl e \<Rightarrow> Inl e
      | Inr st' \<Rightarrow> initializeFiles goModPaths funcName pk fls st')"

fun initializePkgs ::
  "string list \<Rightarrow> string \<Rightarrow> package list
     \<Rightarrow> sigptr \<times> (sigptr \<rightharpoonup> fileAndPkg) \<Rightarrow> error + sigptr \<times> (sigptr \<rightharpoonup> fileAndPkg)" where
  "initializePkgs goModPaths funcName [] st = Inr st"
| "initializePkgs goModPaths funcName (pk # pkgs) st =
     (if \<not> isGoModPkg goModPaths (PkgPath pk) then initializePkgs goModPaths funcName pkgs st
      else
        (case initializeFiles goModPaths funcName pk (Syntax pk) st of
           Inl e \<Rightarrow> Inl e
         | Inr st' \<Rightarrow>
             (case goModPaths of
                [] \<Rightarrow> Inl RuntimePanic
              | root # others \<Rightarrow>
                  if PkgPath pk = root \<and> fst st' = NilSig
                  then Inl (EntryPointNotFound funcName)
                  else initializePkgs goModPaths funcName pkgs st')))"

definition initialize :: "world \<Rightarrow> string \<Rightarrow> error + sigptr \<times> (sigptr \<rightharpoonup> fileAndPkg)" where
  "initialize w funcName =
     (case parseGoModFile w of
        Inl e \<Rightarrow> Inl e
      | Inr goModPaths \<Rightarrow>
          (case loadPackages w of
             Inl e \<Rightarrow> Inl e
           | Inr pkgs \<Rightarrow> initializePkgs goModPaths funcName pkgs (NilSig, Map.empty)))"

section \<open>Parse\<close>

text \<open>
  The part of \<open>Parse\<close> between entering the directory and leaving it, up to the traversal:
  the state of the parser that \<open>toString\<close> is called on.
\<close>

definition traverse :: "world \<Rightarrow> string \<Rightarrow> bool \<Rightarrow> error + parser" where
  "traverse w funcName excludeRoot =
     (case initialize w funcName of
        Inl e \<Rightarrow> Inl e
      | Inr (funcSig, index) \<Rightarrow>
          processFunction (files w) funcSig (if excludeRoot then 6 else 5) (newParser index))"

text \<open>
  \<open>Parse\<close>.  \<open>changeDir\<close> panics when the working directory cannot be read or the package
  directory cannot be entered; the deferred \<open>changeBack\<close> runs on every way out, also after
  a panic, and panics itself when the old directory cannot be entered again.
\<close>

definition Parse :: "world \<Rightarrow> string \<Rightarrow> string \<Rightarrow> bool \<Rightarrow> bool \<Rightarrow> error + string" where
  "Parse w funcPkgPath funcName excludeRoot codeOnly =
     (case getwd w of
        None \<Rightarrow> Inl WorkingDirectoryFailure
      | Some curDir \<Rightarrow>
          if \<not> chdir w funcPkgPath then Inl WorkingDirectoryFailure
          else
            let r = (case traverse w funcName excludeRoot of
                       Inl e \<Rightarrow> Inl e
                     | Inr p \<Rightarrow> Inr (toString p excludeRoot codeOnly))
            in if \<not> chdir w curDir then Inl WorkingDirectoryFailure else r)"

section \<open>Notions used to state the properties\<close>

subsection \<open>Entry-point selection\<close>

text \<open>
  The entry point in closed form: the signatures that \<open>initialize\<close> assigns to
  \<open>funcSig\<close>, in the order of the scan (packages, files, declarations).  A declaration
  counts when its name has a non-nil signature in the type information, its package has
  the path \<open>goModPaths[0]\<close> and its name is the requested one; whether it has a receiver
  (\<open>Recv\<close>) is not looked at.
\<close>

definition lastOr :: "'a \<Rightarrow> 'a list \<Rightarrow> 'a" where
  "lastOr d xs = (if xs = [] then d else last xs)"

definition declEntry :: "string list \<Rightarrow> string \<Rightarrow> package \<Rightarrow> decl \<Rightarrow> sigptr list" where
  "declEntry goModPaths funcName pk n =
     (case n of
        GenDecl \<Rightarrow> []
      | FuncDecl fn \<Rightarrow>
          (case Name fn of
             None \<Rightarrow> []
           | Some name \<Rightarrow>
               (case id_obj name of
                  None \<Rightarrow> []
                | Some obj \<Rightarrow>
                    (case obj_Type obj of
                       OtherType \<Rightarrow> []
                     | Signature sig \<Rightarrow>
                         if sig \<noteq> NilSig \<and> goModPaths \<noteq> [] \<and> PkgPath pk = hd goModPaths
                            \<and> id_Name name = funcName
                         then [sig] else []))))"

definition pkgEntries :: "string list \<Rightarrow> string \<Rightarrow> package \<Rightarrow> sigptr list" where
  "pkgEntries goModPaths funcName pk =
     concat (map (\<lambda>fl. concat (map (declEntry goModPaths funcName pk) (Decls fl))) (Syntax pk))"

definition entryCandidates :: "string list \<Rightarrow> string \<Rightarrow> package list \<Rightarrow> sigptr list" where
  "entryCandidates goModPaths funcName pkgs =
     concat (map (pkgEntries goModPaths funcName)
       (filter (\<lambda>pk. isGoModPkg goModPaths (PkgPath pk)) pkgs))"

text \<open>A package declares a function or method of the given name.\<close>

definition declaresName :: "string \<Rightarrow> package \<Rightarrow> bool" where
  "declaresName funcName pk =
     (\<exists>fl \<in> set (Syntax pk). \<exists>n \<in> set (Decls fl).
        case n of GenDecl \<Rightarrow> False
        | FuncDecl fn \<Rightarrow> (case Name fn of None \<Rightarrow> False | Some name \<Rightarrow> id_Name name = funcName))"

subsection \<open>The index\<close>

text \<open>The declarations among \<open>ns\<close> that the callback of \<open>processFunction\<close> takes for
  the declaration of the signature \<open>s\<close>.\<close>

definition matching :: "sigptr \<Rightarrow> decl list \<Rightarrow> funcDecl list" where
  "matching s ns =
     concat (map (\<lambda>n. case matchDecl s n of Inr (Some fn) \<Rightarrow> [fn] | _ \<Rightarrow> []) ns)"

text \<open>
  Where an entry of the index comes from: a loaded package that \<open>isGoModPkg\<close> accepts, a
  file of that package, and a declaration in the file with the signature of the entry.
\<close>

definition indexedFrom :: "string list \<Rightarrow> package list \<Rightarrow> sigptr \<Rightarrow> fileAndPkg \<Rightarrow> bool" where
  "indexedFrom goModPaths pkgs s f =
     (s \<noteq> NilSig \<and> pkg f \<in> set pkgs \<and> isGoModPkg goModPaths (PkgPath (pkg f))
      \<and> file' f \<in> set (Syntax (pkg f)) \<and> matching s (Decls (file' f)) \<noteq> [])"

text \<open>
  Membership in the module as the specification words it: the package is the module
  itself or one of its sub-packages.
\<close>

definition inModule :: "string \<Rightarrow> string \<Rightarrow> bool" where
  "inModule modulePath pkgPath = (pkgPath = modulePath \<or> HasPrefix pkgPath (modulePath @ ''/''))"

subsection \<open>Source text\<close>

text \<open>The lines numbered \<open>a\<close> to \<open>b\<close> (from 1, both included) of a file split into
  lines, each followed by a newline.\<close>

definition lineBlock :: "string list \<Rightarrow> int \<Rightarrow> int \<Rightarrow> string" where
  "lineBlock lines a b =
     concat (map (\<lambda>l. l @ [newline]) (take (nat (b - a + 1)) (drop (nat (a - 1)) lines)))"

text \<open>The comments of the documentation block, and what the slicer writes for them:
  for each comment that is not nil, the lines from its first to its last.\<close>

definition docComments :: "funcDecl \<Rightarrow> comment option list" where
  "docComments fn = (case Doc fn of None \<Rightarrow> [] | Some cs \<Rightarrow> cs)"

definition commentBlocks :: "string list \<Rightarrow> comment option list \<Rightarrow> string" where
  "commentBlocks lines cs =
     concat (map (\<lambda>c. case c of None \<Rightarrow> []
                       | Some c \<Rightarrow> lineBlock lines (Line (c_Pos c)) (Line (c_End c))) cs)"

text \<open>The line numbers stay within the file, so that no index panics.\<close>

definition linesInRange :: "string list \<Rightarrow> int \<Rightarrow> int \<Rightarrow> bool" where
  "linesInRange lines a b = (1 \<le> a \<and> b \<le> int (length lines))"

definition commentsInRange :: "string list \<Rightarrow> comment option list \<Rightarrow> bool" where
  "commentsInRange lines cs =
     list_all (\<lambda>c. case c of None \<Rightarrow> True
                   | Some c \<Rightarrow> linesInRange lines (Line (c_Pos c)) (Line (c_End c))) cs"

text \<open>
  The comments occupy consecutive ranges of lines: the first starts at line \<open>a\<close>, each
  starts on the line after the one before ends, and the line after the last is \<open>e\<close>.
\<close>

fun chained :: "comment option list \<Rightarrow> int \<Rightarrow> int \<Rightarrow> bool" where
  "chained [] a e = (a = e)"
| "chained (None # cs) a e = chained cs a e"
| "chained (Some c # cs) a e =
     (Line (c_Pos c) = a \<and> a \<le> Line (c_End c) \<and> chained cs (Line (c_End c) + 1) e)"

text \<open>
  The slice as the specification words it: the exact substring of the file from the start
  of the documentation block (the function's start without one) to the end of the
  function, by byte offsets.
\<close>

definition spanText :: "string \<Rightarrow> int \<Rightarrow> int \<Rightarrow> string" where
  "spanText content from to = take (nat (to - from)) (drop (nat from) content)"

definition specSlice :: "(string \<rightharpoonup> string) \<Rightarrow> funcDecl \<Rightarrow> string option" where
  "specSlice fs fn =
     (case fs (Filename (fn_Pos fn)) of
        None \<Rightarrow> None
      | Some content \<Rightarrow>
          Some (spanText content
                 (case List.map_filter id (docComments fn) of
                    [] \<Rightarrow> Offset (fn_Pos fn)
                  | c # cs \<Rightarrow> Offset (c_Pos c))
                 (Offset (fn_End fn))))"

subsection \<open>The call graph and the state of the traversal\<close>

text \<open>
  The call graph that the walker follows: the callees of a signature are the signatures
  that the calls in the body of its declaration resolve to (\<open>callTarget\<close>), in the
  file that the index gives.  \<open>within index k s\<close> is the set of signatures at
  call-distance at most \<open>k\<close> from \<open>s\<close>.  \<open>seenSet\<close> is the visited set as a set.
\<close>

definition bodyTargets :: "funcDecl \<Rightarrow> sigptr list" where
  "bodyTargets fn = (case Body fn of None \<Rightarrow> [] | Some body \<Rightarrow> List.map_filter callTarget body)"

definition callees :: "(sigptr \<rightharpoonup> fileAndPkg) \<Rightarrow> sigptr \<Rightarrow> sigptr list" where
  "callees index s =
     (case index s of
        None \<Rightarrow> []
      | Some f \<Rightarrow> concat (map bodyTargets (matching s (Decls (file' f)))))"

fun within :: "(sigptr \<rightharpoonup> fileAndPkg) \<Rightarrow> nat \<Rightarrow> sigptr \<Rightarrow> sigptr set" where
  "within index 0 s = {s}"
| "within index (Suc k) s = insert s (\<Union>t \<in> set (callees index s). within index k t)"

definition seenSet :: "parser \<Rightarrow> sigptr set" where
  "seenSet p = {s. seen p s}"

text \<open>
  A later state of one traversal: the index is the same, the visited set, the package
  order and the accumulated texts have only grown at their ends.
\<close>

definition grows :: "parser \<Rightarrow> parser \<Rightarrow> bool" where
  "grows p q =
     (funcToFileAndPkg q = funcToFileAndPkg p
      \<and> (\<forall>s. seen p s \<longrightarrow> seen q s)
      \<and> (\<exists>more. pkgOrder q = pkgOrder p @ more)
      \<and> (\<forall>pk. functions' p pk \<noteq> None \<longrightarrow> functions' q pk \<noteq> None)
      \<and> (\<forall>pk. \<exists>t. lookupText (functions' q) pk = lookupText (functions' p) pk @ t))"

text \<open>The package order lists, without repetition, the packages that have a text.\<close>

definition orderly :: "parser \<Rightarrow> bool" where
  "orderly p = (distinct (pkgOrder p) \<and> set (pkgOrder p) = dom (functions' p))"

subsection \<open>Accounting for the accumulated text\<close>

text \<open>The package of an indexed signature.\<close>

definition pkgOf :: "(sigptr \<rightharpoonup> fileAndPkg) \<Rightarrow> sigptr \<Rightarrow> package option" where
  "pkgOf index s = map_option pkg (index s)"

text \<open>
  What one visit of \<open>s\<close> appends to the text of its package: a newline and the source,
  for each declaration of \<open>s\<close> in its file.
\<close>

definition chunk :: "(string \<rightharpoonup> string) \<Rightarrow> (sigptr \<rightharpoonup> fileAndPkg) \<Rightarrow> sigptr \<Rightarrow> string" where
  "chunk fs index s =
     (case index s of
        None \<Rightarrow> []
      | Some f \<Rightarrow>
          concat (map (\<lambda>fn. case extractSourceCode fs fn of
                               Inl e \<Rightarrow> [] | Inr src \<Rightarrow> [newline] @ src)
                      (matching s (Decls (file' f)))))"

text \<open>
  The list \<open>vs\<close> accounts for the state: it lists the visited signatures, each once, and
  the text of every package is the concatenation of what the visits of its signatures
  appended, in the order of \<open>vs\<close>.
\<close>

definition accounted :: "(string \<rightharpoonup> string) \<Rightarrow> parser \<Rightarrow> sigptr list \<Rightarrow> bool" where
  "accounted fs p vs =
     (distinct vs \<and> set vs = seenSet p
      \<and> (\<forall>pk. lookupText (functions' p) pk =
             concat (map (chunk fs (funcToFileAndPkg p))
                         (filter (\<lambda>s. pkgOf (funcToFileAndPkg p) s = Some pk) vs))))"

text \<open>
  What the Go type checker provides and the walker relies on: a signature is the
  signature of at most one declaration of the file it is indexed under.
\<close>

definition uniqueDecls :: "(sigptr \<rightharpoonup> fileAndPkg) \<Rightarrow> bool" where
  "uniqueDecls index =
     (\<forall>s f. index s = Some f \<longrightarrow> length (matching s (Decls (file' f))) \<le> 1)"

text \<open>
  No panic can occur: in every indexed file, each named declaration has an object in the
  type information, and the source of each function declaration can be extracted.
\<close>

definition declHealthy :: "(string \<rightharpoonup> string) \<Rightarrow> decl \<Rightarrow> bool" where
  "declHealthy fs n =
     (case n of
        GenDecl \<Rightarrow> True
      | FuncDecl fn \<Rightarrow>
          (case Name fn of None \<Rightarrow> True | Some name \<Rightarrow> id_obj name \<noteq> None)
          \<and> \<not> isl (extractSourceCode fs fn))"

definition healthy :: "(string \<rightharpoonup> string) \<Rightarrow> (sigptr \<rightharpoonup> fileAndPkg) \<Rightarrow> bool" where
  "healthy fs index =
     (\<forall>s f. index s = Some f \<longrightarrow> list_all (declHealthy fs) (Decls (file' f)))"

text \<open>The signature is in the index and declared in the file it is indexed under.\<close>

definition declared :: "(sigptr \<rightharpoonup> fileAndPkg) \<Rightarrow> sigptr \<Rightarrow> bool" where
  "declared index s =
     (case index s of None \<Rightarrow> False | Some f \<Rightarrow> matching s (Decls (file' f)) \<noteq> [])"

text \<open>
  The packages whose block \<open>toString\<close> writes, and the visited functions whose text is
  part of such a block: the functions included in the document.
\<close>

definition emitted :: "parser \<Rightarrow> bool \<Rightarrow> package list" where
  "emitted p excludeRoot = (if excludeRoot then tl (pkgOrder p) else pkgOrder p)"

definition included :: "parser \<Rightarrow> bool \<Rightarrow> sigptr \<Rightarrow> bool" where
  "included p excludeRoot s =
     (seen p s \<and>
      (case funcToFileAndPkg p s of
         None \<Rightarrow> False
       | Some f \<Rightarrow> pkg f \<in> set (emitted p excludeRoot)))"

text \<open>
  The document in closed form.  \<open>block\<close> is what \<open>toString\<close> writes for the package
  at position \<open>k\<close> of \<open>n\<close> packages: nothing for the first package with
  \<open>excludeRoot\<close>; otherwise the header (not for the first package written), the
  formatted text, and two newlines unless the position is the last.  \<open>pkgText\<close> is the
  text that the functions \<open>ws\<close> give a package: for each function of \<open>ws\<close> in that
  package, in the order of \<open>ws\<close>, what its visit appends.  \<open>document\<close> is the
  sequence of the blocks of the packages \<open>pkgs\<close>, each with the text that the functions
  \<open>ws\<close> give it.
\<close>

definition block :: "int \<Rightarrow> bool \<Rightarrow> bool \<Rightarrow> int \<Rightarrow> package \<Rightarrow> string \<Rightarrow> string" where
  "block n excludeRoot codeOnly k pk txt =
     (if k = 0 \<and> excludeRoot then []
      else (if k > 1 \<or> (k = 1 \<and> \<not> excludeRoot)
            then formatPkg (pkg_Name pk) codeOnly @ [newline] else [])
           @ formatFunctions txt codeOnly
           @ (if k < n - 1 then [newline, newline] else []))"

fun blocksFrom ::
  "int \<Rightarrow> bool \<Rightarrow> bool \<Rightarrow> (package \<Rightarrow> string) \<Rightarrow> int \<Rightarrow> package list \<Rightarrow> string" where
  "blocksFrom n excludeRoot codeOnly txt k [] = []"
| "blocksFrom n excludeRoot codeOnly txt k (pk # rest) =
     block n excludeRoot codeOnly k pk (txt pk) @ blocksFrom n excludeRoot codeOnly txt (k + 1) rest"

definition pkgText ::
  "(string \<rightharpoonup> string) \<Rightarrow> (sigptr \<rightharpoonup> fileAndPkg) \<Rightarrow> sigptr list \<Rightarrow> package \<Rightarrow> string" where
  "pkgText fs index ws pk =
     concat (map (chunk fs index) (filter (\<lambda>s. pkgOf index s = Some pk) ws))"

definition document ::
  "(string \<rightharpoonup> string) \<Rightarrow> (sigptr \<rightharpoonup> fileAndPkg) \<Rightarrow> package list \<Rightarrow> sigptr list
     \<Rightarrow> bool \<Rightarrow> bool \<Rightarrow> string" where
  "document fs index pkgs ws excludeRoot codeOnly =
     blocksFrom (int (length pkgs)) excludeRoot codeOnly (pkgText fs index ws) 0 pkgs"

text \<open>
  Every visited signature is in the index, and the source of a declaration of it in its
  file has been extracted.
\<close>

definition sourced :: "(string \<rightharpoonup> string) \<Rightarrow> parser \<Rightarrow> bool" where
  "sourced fs p =
     (\<forall>s. seen p s \<longrightarrow>
        (\<exists>f fn src. funcToFileAndPkg p s = Some f
           \<and> fn \<in> set (matching s (Decls (file' f))) \<and> extractSourceCode fs fn = Inr src))"

text \<open>Every visited signature is indexed, and its package has a text.\<close>

definition registered :: "parser \<Rightarrow> bool" where
  "registered p =
     (\<forall>s. seen p s \<longrightarrow>
        (case funcToFileAndPkg p s of None \<Rightarrow> False | Some f \<Rightarrow> functions' p (pkg f) \<noteq> None))"

subsection \<open>Renaming the addresses of signatures\<close>

text \<open>
  Two runs of the program on one snapshot of a module read the same files and load the
  same packages; what differs is where the type checker allocates the signatures.
  \<open>renWorld r\<close> moves every signature of the loaded packages from its address \<open>a\<close> to
  the address \<open>r a\<close>.  The index and the state of the parser are renamed with \<open>r\<close>
  and read through its inverse \<open>r'\<close>.
\<close>

fun renSig :: "(nat \<Rightarrow> nat) \<Rightarrow> sigptr \<Rightarrow> sigptr" where
  "renSig r NilSig = NilSig"
| "renSig r (SigAt a) = SigAt (r a)"

fun renType :: "(nat \<Rightarrow> nat) \<Rightarrow> gotype \<Rightarrow> gotype" where
  "renType r (Signature s) = Signature (renSig r s)"
| "renType r OtherType = OtherType"

fun renObject :: "(nat \<Rightarrow> nat) \<Rightarrow> object \<Rightarrow> object" where
  "renObject r (Object pk t) = Object pk (renType r t)"

fun renIdent :: "(nat \<Rightarrow> nat) \<Rightarrow> ident \<Rightarrow> ident" where
  "renIdent r (Ident name obj) = Ident name (map_option (renObject r) obj)"

fun renExpr :: "(nat \<Rightarrow> nat) \<Rightarrow> expr \<Rightarrow> expr" where
  "renExpr r (IdentExpr i) = IdentExpr (map_option (renIdent r) i)"
| "renExpr r (SelectorExpr sel) = SelectorExpr (map_option (renIdent r) sel)"
| "renExpr r OtherExpr = OtherExpr"

fun renNode :: "(nat \<Rightarrow> nat) \<Rightarrow> node \<Rightarrow> node" where
  "renNode r (CallExpr e) = CallExpr (renExpr r e)"
| "renNode r OtherNode = OtherNode"

definition renFunc :: "(nat \<Rightarrow> nat) \<Rightarrow> funcDecl \<Rightarrow> funcDecl" where
  "renFunc r fn = fn\<lparr> Name := map_option (renIdent r) (Name fn),
                       Body := map_option (map (renNode r)) (Body fn) \<rparr>"

fun renDecl :: "(nat \<Rightarrow> nat) \<Rightarrow> decl \<Rightarrow> decl" where
  "renDecl r (FuncDecl fn) = FuncDecl (renFunc r fn)"
| "renDecl r GenDecl = GenDecl"

definition renFile :: "(nat \<Rightarrow> nat) \<Rightarrow> astFile \<Rightarrow> astFile" where
  "renFile r fl = fl\<lparr> Decls := map (renDecl r) (Decls fl) \<rparr>"

definition renPkg :: "(nat \<Rightarrow> nat) \<Rightarrow> package \<Rightarrow> package" where
  "renPkg r pk = pk\<lparr> Syntax := map (renFile r) (Syntax pk) \<rparr>"

definition renFileAndPkg :: "(nat \<Rightarrow> nat) \<Rightarrow> fileAndPkg \<Rightarrow> fileAndPkg" where
  "renFileAndPkg r f = \<lparr> file' = renFile r (file' f), pkg = renPkg r (pkg f) \<rparr>"

definition renWorld :: "(nat \<Rightarrow> nat) \<Rightarrow> world \<Rightarrow> world" where
  "renWorld r w = w\<lparr> load := map_option (map (renPkg r)) (load w) \<rparr>"

definition renIndex ::
  "(nat \<Rightarrow> nat) \<Rightarrow> (nat \<Rightarrow> nat) \<Rightarrow> (sigptr \<rightharpoonup> fileAndPkg) \<Rightarrow> (sigptr \<rightharpoonup> fileAndPkg)" where
  "renIndex r r' m = (\<lambda>t. map_option (renFileAndPkg r) (m (renSig r' t)))"

definition renParser :: "(nat \<Rightarrow> nat) \<Rightarrow> (nat \<Rightarrow> nat) \<Rightarrow> parser \<Rightarrow> parser" where
  "renParser r r' p =
     \<lparr> funcToFileAndPkg = renIndex r r' (funcToFileAndPkg p),
       functions' = (\<lambda>pk. functions' p (renPkg r' pk)),
       pkgOrder = map (renPkg r) (pkgOrder p),
       seen = (\<lambda>t. seen p (renSig r' t)) \<rparr>"

definition renInit ::
  "(nat \<Rightarrow> nat) \<Rightarrow> (nat \<Rightarrow> nat) \<Rightarrow> sigptr \<times> (sigptr \<rightharpoonup> fileAndPkg)
     \<Rightarrow> sigptr \<times> (sigptr \<rightharpoonup> fileAndPkg)" where
  "renInit r r' st = (renSig r (fst st), renIndex r r' (snd st))"

definition inverses :: "(nat \<Rightarrow> nat) \<Rightarrow> (nat \<Rightarrow> nat) \<Rightarrow> bool" where
  "inverses r r' = (r' \<circ> r = id \<and> r \<circ> r' = id)"

section \<open>Example modules\<close>

text \<open>
  Small modules on which the theorems below are instantiated.  A function is one line of
  its file; its body is a list of calls; every identifier is resolved by the type
  information.
\<close>

definition exIdent :: "string \<Rightarrow> nat \<Rightarrow> ident" where
  "exIdent name a = Ident name (Some (Object (Some ''m'') (Signature (SigAt a))))"

definition exCall :: "nat \<Rightarrow> node" where
  "exCall a = CallExpr (IdentExpr (Some (exIdent ''f'' a)))"

definition exFunc :: "string \<Rightarrow> string \<Rightarrow> nat \<Rightarrow> int \<Rightarrow> nat list \<Rightarrow> decl" where
  "exFunc fname name a ln targets =
     FuncDecl \<lparr> Doc = None, Recv = False, Name = Some (exIdent name a),
                fn_Pos = \<lparr> Filename = fname, Offset = 0, Line = ln, Column = 1 \<rparr>,
                fn_End = \<lparr> Filename = fname, Offset = 0, Line = ln, Column = 1 \<rparr>,
                Body = Some (map exCall targets) \<rparr>"

definition exMethod :: "string \<Rightarrow> string \<Rightarrow> nat \<Rightarrow> int \<Rightarrow> nat list \<Rightarrow> decl" where
  "exMethod fname name a ln targets =
     FuncDecl \<lparr> Doc = None, Recv = True, Name = Some (exIdent name a),
                fn_Pos = \<lparr> Filename = fname, Offset = 0, Line = ln, Column = 1 \<rparr>,
                fn_End = \<lparr> Filename = fname, Offset = 0, Line = ln, Column = 1 \<rparr>,
                Body = Some (map exCall targets) \<rparr>"

definition exPkg :: "string \<Rightarrow> string \<Rightarrow> decl list \<Rightarrow> package" where
  "exPkg path name ds =
     \<lparr> ID = path, pkg_Name = name, PkgPath = path, Syntax = [\<lparr> Decls = ds \<rparr>] \<rparr>"

definition exWorld :: "string \<Rightarrow> package list \<Rightarrow> (string \<times> string) list \<Rightarrow> world" where
  "exWorld manifest pkgs fl =
     \<lparr> getwd = Some ''/'', chdir = (\<lambda>d. True), gomod = Some manifest, load = Some pkgs,
       files = map_of fl \<rparr>"

text \<open>A module \<open>m\<close> that requires the module \<open>d\<close>; the entry point \<open>E\<close> calls
  \<open>A\<close> of \<open>d\<close>.\<close>

definition depManifest :: string where
  "depManifest = ''module m'' @ [newline] @ ''go 1.20'' @ [newline] @ ''require d v1''"

definition depRoot :: package where
  "depRoot = exPkg ''m'' ''main'' [exFunc ''m.go'' ''E'' 0 1 [1]]"

definition depLib :: package where
  "depLib = exPkg ''d'' ''d'' [exFunc ''d.go'' ''A'' 1 1 []]"

definition depWorld :: world where
  "depWorld = exWorld depManifest [depRoot, depLib] [(''m.go'', ''E''), (''d.go'', ''A'')]"

text \<open>A root package that declares a function \<open>Run\<close> and then a method \<open>Run\<close>.\<close>

definition selRoot :: package where
  "selRoot = exPkg ''m'' ''main'' [exFunc ''m.go'' ''Run'' 0 1 [], exMethod ''m.go'' ''Run'' 1 2 []]"

definition selWorld :: world where
  "selWorld = exWorld ''module m'' [selRoot] [(''m.go'', ''F'' @ [newline] @ ''M'')]"


text \<open>A function that starts in the middle of a line.\<close>

definition sliceFs :: "string \<rightharpoonup> string" where
  "sliceFs = [''f.go'' \<mapsto> ''var x = 1; func f() {}'']"

definition sliceFn :: funcDecl where
  "sliceFn = \<lparr> Doc = None, Recv = False,
               Name = Some (Ident ''f'' (Some (Object (Some ''m'') (Signature (SigAt 0))))),
               fn_Pos = \<lparr> Filename = ''f.go'', Offset = 11, Line = 1, Column = 12 \<rparr>,
               fn_End = \<lparr> Filename = ''f.go'', Offset = 22, Line = 1, Column = 23 \<rparr>,
               Body = Some [] \<rparr>"

text \<open>A function with two documentation comments, in a file of five lines.\<close>

definition docContent :: string where
  "docContent = ''p'' @ [newline] @ ''// a'' @ [newline] @ ''// b'' @ [newline]
      @ ''func f() {'' @ [newline] @ ''}''"

definition docFn :: funcDecl where
  "docFn = \<lparr> Doc = Some
                [Some (Comment \<lparr> Filename = ''f.go'', Offset = 2, Line = 2, Column = 1 \<rparr>
                               \<lparr> Filename = ''f.go'', Offset = 6, Line = 2, Column = 5 \<rparr>),
                 Some (Comment \<lparr> Filename = ''f.go'', Offset = 7, Line = 3, Column = 1 \<rparr>
                               \<lparr> Filename = ''f.go'', Offset = 11, Line = 3, Column = 5 \<rparr>)],
             Recv = False,
             Name = Some (Ident ''f'' (Some (Object (Some ''m'') (Signature (SigAt 0))))),
             fn_Pos = \<lparr> Filename = ''f.go'', Offset = 12, Line = 4, Column = 1 \<rparr>,
             fn_End = \<lparr> Filename = ''f.go'', Offset = 24, Line = 5, Column = 2 \<rparr>,
             Body = Some [] \<rparr>"

text \<open>
  A module whose entry point \<open>E\<close> starts a chain of calls through the functions
  \<open>F1\<close> to \<open>F5\<close> of a sub-package: \<open>Fk\<close> is at call-distance \<open>k\<close> from \<open>E\<close>.
\<close>

definition chainRoot :: package where
  "chainRoot = exPkg ''m'' ''main'' [exFunc ''m.go'' ''E'' 0 1 [1]]"

definition chainLib :: package where
  "chainLib = exPkg ''m/lib'' ''lib''
     [exFunc ''lib.go'' ''F1'' 1 1 [2], exFunc ''lib.go'' ''F2'' 2 2 [3],
      exFunc ''lib.go'' ''F3'' 3 3 [4], exFunc ''lib.go'' ''F4'' 4 4 [5],
      exFunc ''lib.go'' ''F5'' 5 5 []]"

definition chainWorld :: world where
  "chainWorld = exWorld ''module m'' [chainRoot, chainLib]
     [(''m.go'', ''E''),
      (''lib.go'', ''1'' @ [newline] @ ''2'' @ [newline] @ ''3'' @ [newline] @ ''4''
                    @ [newline] @ ''5'')]"

text \<open>
  Recursion: \<open>A\<close> calls itself and \<open>B\<close>, and \<open>B\<close> calls \<open>A\<close>.  \<open>cycIndex\<close> is the index
  that \<open>initialize\<close> builds for this module.
\<close>

definition cycRoot :: package where
  "cycRoot = exPkg ''m'' ''main'' [exFunc ''m.go'' ''A'' 0 1 [0, 1], exFunc ''m.go'' ''B'' 1 2 [0]]"

definition cycWorld :: world where
  "cycWorld = exWorld ''module m'' [cycRoot] [(''m.go'', ''A'' @ [newline] @ ''B'')]"

definition cycIndex :: "sigptr \<rightharpoonup> fileAndPkg" where
  "cycIndex = [SigAt 0 \<mapsto> \<lparr> file' = hd (Syntax cycRoot), pkg = cycRoot \<rparr>,
               SigAt 1 \<mapsto> \<lparr> file' = hd (Syntax cycRoot), pkg = cycRoot \<rparr>]"




text \<open>
  A shortcut: \<open>E\<close> calls \<open>A\<close> and then \<open>Y\<close>; \<open>A\<close> calls \<open>B\<close>, \<open>B\<close> calls
  \<open>C\<close>, \<open>C\<close> calls \<open>D\<close>, \<open>D\<close> calls \<open>Y\<close>, and \<open>Y\<close> calls \<open>Z\<close>.  The
  addresses are 0 for \<open>E\<close>, 1 to 4 for \<open>A\<close> to \<open>D\<close>, 5 for \<open>Y\<close> and 6 for
  \<open>Z\<close>.
\<close>

definition shortcutRoot :: package where
  "shortcutRoot = exPkg ''m'' ''main'' [exFunc ''m.go'' ''E'' 0 1 [1, 5]]"

definition shortcutLib :: package where
  "shortcutLib = exPkg ''m/lib'' ''lib''
     [exFunc ''lib.go'' ''A'' 1 1 [2], exFunc ''lib.go'' ''B'' 2 2 [3],
      exFunc ''lib.go'' ''C'' 3 3 [4], exFunc ''lib.go'' ''D'' 4 4 [5],
      exFunc ''lib.go'' ''Y'' 5 5 [6], exFunc ''lib.go'' ''Z'' 6 6 []]"

definition shortcutWorld :: world where
  "shortcutWorld = exWorld ''module m'' [shortcutRoot, shortcutLib]
     [(''m.go'', ''E''),
      (''lib.go'', ''A'' @ [newline] @ ''B'' @ [newline] @ ''C'' @ [newline] @ ''D''
                    @ [newline] @ ''Y'' @ [newline] @ ''Z'')]"

text \<open>
  A module whose \<open>go.mod\<close> starts with a comment line; its root package declares the
  function \<open>E\<close>.
\<close>

definition commentManifest :: string where
  "commentManifest = ''// my module'' @ [newline] @ ''module m''"

definition commentRoot :: package where
  "commentRoot = exPkg ''m'' ''main'' [exFunc ''m.go'' ''E'' 0 1 []]"

definition commentWorld :: world where
  "commentWorld = exWorld commentManifest [commentRoot] [(''m.go'', ''E'')]"

text \<open>The addresses 0 and 1 exchanged.\<close>

definition swap01 :: "nat \<Rightarrow> nat" where
  "swap01 a = (if a = 0 then 1 else if a = 1 then 0 else a)"

section \<open>Properties of the Symbol Index\<close>

lemma lastOr_simps [simp]:
  "lastOr d [] = d" "lastOr d [x] = x" "lastOr (lastOr d xs) ys = lastOr d (xs @ ys)"
  by (simp_all add: lastOr_def)

lemma initializeDecl_fst:
  "initializeDecl paths name pk fl n st = Inr st' \<Longrightarrow>
   fst st' = lastOr (fst st) (declEntry paths name pk n)"
  by (auto simp: initializeDecl_def declEntry_def
      split: decl.splits option.splits gotype.splits if_splits list.splits)

lemma initializeDecls_fst:
  "initializeDecls paths name pk fl ns st = Inr st' \<Longrightarrow>
   fst st' = lastOr (fst st) (concat (map (declEntry paths name pk) ns))"
proof (induction ns arbitrary: st)
  case Nil
  then show ?case by simp
next
  case (Cons n ns)
  then obtain st1 where a: "initializeDecl paths name pk fl n st = Inr st1"
    and b: "initializeDecls paths name pk fl ns st1 = Inr st'"
    by (auto split: sum.splits)
  from Cons.IH [OF b] initializeDecl_fst [OF a] show ?case by simp
qed

lemma initializeFiles_fst:
  "initializeFiles paths name pk fls st = Inr st' \<Longrightarrow>
   fst st' = lastOr (fst st)
     (concat (map (\<lambda>fl. concat (map (declEntry paths name pk) (Decls fl))) fls))"
proof (induction fls arbitrary: st)
  case Nil
  then show ?case by simp
next
  case (Cons fl fls)
  then obtain st1 where a: "initializeDecls paths name pk fl (Decls fl) st = Inr st1"
    and b: "initializeFiles paths name pk fls st1 = Inr st'"
    by (auto split: sum.splits)
  from Cons.IH [OF b] initializeDecls_fst [OF a] show ?case by simp
qed

lemma initializePkgs_fst:
  "initializePkgs paths name pkgs st = Inr st' \<Longrightarrow>
   fst st' = lastOr (fst st) (entryCandidates paths name pkgs)"
proof (induction pkgs arbitrary: st)
  case Nil
  then show ?case by (simp add: entryCandidates_def)
next
  case (Cons pk pkgs)
  show ?case
  proof (cases "isGoModPkg paths (PkgPath pk)")
    case False
    with Cons show ?thesis by (simp add: entryCandidates_def)
  next
    case True
    with Cons.prems obtain st1 where a: "initializeFiles paths name pk (Syntax pk) st = Inr st1"
      and b: "initializePkgs paths name pkgs st1 = Inr st'"
      by (auto split: sum.splits list.splits if_splits)
    from Cons.IH [OF b] initializeFiles_fst [OF a] True show ?thesis
      by (simp add: entryCandidates_def pkgEntries_def)
  qed
qed

lemma initializeDecl_total:
  "paths \<noteq> [] \<Longrightarrow> \<exists>st'. initializeDecl paths name pk fl n st = Inr st'"
  by (auto simp: initializeDecl_def
      split: decl.splits option.splits gotype.splits if_splits list.splits)

lemma initializeDecls_total:
  "paths \<noteq> [] \<Longrightarrow> \<exists>st'. initializeDecls paths name pk fl ns st = Inr st'"
proof (induction ns arbitrary: st)
  case Nil
  then show ?case by simp
next
  case (Cons n ns)
  from initializeDecl_total [OF Cons.prems] obtain st1
    where "initializeDecl paths name pk fl n st = Inr st1" by blast
  with Cons.IH [OF Cons.prems, of st1] show ?case by simp
qed

lemma initializeFiles_total:
  "paths \<noteq> [] \<Longrightarrow> \<exists>st'. initializeFiles paths name pk fls st = Inr st'"
proof (induction fls arbitrary: st)
  case Nil
  then show ?case by simp
next
  case (Cons fl fls)
  from initializeDecls_total [OF Cons.prems] obtain st1
    where "initializeDecls paths name pk fl (Decls fl) st = Inr st1" by blast
  with Cons.IH [OF Cons.prems, of st1] show ?case by simp
qed

lemma isGoModPkg_root: "isGoModPkg (root # others) root"
  by simp

lemma pkgEntries_not_root:
  "PkgPath pk \<noteq> root \<Longrightarrow> pkgEntries (root # others) name pk = []"
  by (auto simp: pkgEntries_def declEntry_def
      split: decl.splits option.splits gotype.splits)

lemma pkgEntries_no_name:
  "\<not> declaresName name pk \<Longrightarrow> pkgEntries paths name pk = []"
  by (auto simp: pkgEntries_def declEntry_def declaresName_def
      split: decl.splits option.splits gotype.splits)

lemma initializePkgs_not_found:
  assumes "\<exists>pk \<in> set pkgs. PkgPath pk = root"
    and "\<forall>pk \<in> set pkgs. PkgPath pk = root \<longrightarrow> \<not> declaresName name pk"
    and "fst st = NilSig"
  shows "initializePkgs (root # others) name pkgs st = Inl (EntryPointNotFound name)"
  using assms
proof (induction pkgs arbitrary: st)
  case Nil
  then show ?case by simp
next
  case (Cons pk pkgs)
  show ?case
  proof (cases "isGoModPkg (root # others) (PkgPath pk)")
    case False
    then have "PkgPath pk \<noteq> root" by auto
    with Cons False show ?thesis by simp
  next
    case True
    obtain st1 where a: "initializeFiles (root # others) name pk (Syntax pk) st = Inr st1"
      using initializeFiles_total [of "root # others"] by blast
    have e: "pkgEntries (root # others) name pk = []"
    proof (cases "PkgPath pk = root")
      case True
      with Cons.prems(2) show ?thesis by (simp add: pkgEntries_no_name)
    next
      case False
      then show ?thesis by (rule pkgEntries_not_root)
    qed
    from initializeFiles_fst [OF a] have "fst st1 = lastOr (fst st) (pkgEntries (root # others) name pk)"
      by (simp add: pkgEntries_def)
    with e Cons.prems(3) have f: "fst st1 = NilSig" by simp
    show ?thesis
    proof (cases "PkgPath pk = root")
      case True
      with a f \<open>isGoModPkg (root # others) (PkgPath pk)\<close> show ?thesis by simp
    next
      case False
      with Cons.prems have "\<exists>pk \<in> set pkgs. PkgPath pk = root"
        and "\<forall>pk \<in> set pkgs. PkgPath pk = root \<longrightarrow> \<not> declaresName name pk" by auto
      from Cons.IH [OF this f] a f False \<open>isGoModPkg (root # others) (PkgPath pk)\<close>
      show ?thesis by simp
    qed
  qed
qed

text \<open>
  When a loaded package has the path \<open>goModPaths[0]\<close> and no package with that path
  declares a function or method of the requested name, \<open>initialize\<close> panics with
  \<open>EntryPointNotFound\<close>, and \<open>Parse\<close> returns no document.
\<close>

lemma initialize_not_found:
  assumes "parseGoModFile w = Inr (root # others)"
    and "loadPackages w = Inr pkgs"
    and "\<exists>pk \<in> set pkgs. PkgPath pk = root"
    and "\<forall>pk \<in> set pkgs. PkgPath pk = root \<longrightarrow> \<not> declaresName funcName pk"
  shows "initialize w funcName = Inl (EntryPointNotFound funcName)
     \<and> (\<forall>dir excludeRoot codeOnly. \<exists>e. Parse w dir funcName excludeRoot codeOnly = Inl e)
     \<and> (\<forall>dir cur excludeRoot codeOnly. getwd w = Some cur \<and> chdir w dir \<and> chdir w cur \<longrightarrow>
           Parse w dir funcName excludeRoot codeOnly = Inl (EntryPointNotFound funcName))"
proof -
  have i: "initialize w funcName = Inl (EntryPointNotFound funcName)"
    using assms initializePkgs_not_found [of pkgs root funcName "(NilSig, Map.empty)" others]
    by (simp add: initialize_def)
  then have t: "traverse w funcName excludeRoot = Inl (EntryPointNotFound funcName)" for excludeRoot
    by (simp add: traverse_def)
  have "\<exists>e. Parse w dir funcName excludeRoot codeOnly = Inl e" for dir excludeRoot codeOnly
    by (simp add: Parse_def t split: option.splits)
  moreover have "Parse w dir funcName excludeRoot codeOnly = Inl (EntryPointNotFound funcName)"
    if "getwd w = Some cur \<and> chdir w dir \<and> chdir w cur" for dir cur excludeRoot codeOnly
    using that by (simp add: Parse_def t)
  ultimately show ?thesis using i by blast
qed

lemma matching_simps [simp]:
  "matching s [] = []"
  "matching s (n # ns) = (case matchDecl s n of Inr (Some fn) \<Rightarrow> [fn] | _ \<Rightarrow> []) @ matching s ns"
  "matching s (ns @ ms) = matching s ns @ matching s ms"
  by (simp_all add: matching_def)

lemma initializeDecl_snd:
  assumes "initializeDecl paths name pk fl n st = Inr st'" and "snd st' s = Some f"
  shows "snd st s = Some f \<or> (s \<noteq> NilSig \<and> f = \<lparr> file' = fl, pkg = pk \<rparr> \<and> matching s [n] \<noteq> [])"
  using assms
  by (auto simp: initializeDecl_def matchDecl_def
      split: decl.splits option.splits gotype.splits if_splits list.splits)

lemma initializeDecls_snd:
  assumes "initializeDecls paths name pk fl ns st = Inr st'" and "snd st' s = Some f"
  shows "snd st s = Some f \<or> (s \<noteq> NilSig \<and> f = \<lparr> file' = fl, pkg = pk \<rparr> \<and> matching s ns \<noteq> [])"
  using assms
proof (induction ns arbitrary: st)
  case Nil
  then show ?case by simp
next
  case (Cons n ns)
  then obtain st1 where a: "initializeDecl paths name pk fl n st = Inr st1"
    and b: "initializeDecls paths name pk fl ns st1 = Inr st'"
    by (auto split: sum.splits)
  from Cons.IH [OF b Cons.prems(2)] show ?case
  proof
    assume "snd st1 s = Some f"
    from initializeDecl_snd [OF a this] show ?thesis by auto
  next
    assume "s \<noteq> NilSig \<and> f = \<lparr>file' = fl, pkg = pk\<rparr> \<and> matching s ns \<noteq> []"
    then show ?thesis by simp
  qed
qed

lemma initializeFiles_snd:
  assumes "initializeFiles paths name pk fls st = Inr st'" and "snd st' s = Some f"
  shows "snd st s = Some f \<or>
     (s \<noteq> NilSig \<and> pkg f = pk \<and> file' f \<in> set fls \<and> matching s (Decls (file' f)) \<noteq> [])"
  using assms
proof (induction fls arbitrary: st)
  case Nil
  then show ?case by simp
next
  case (Cons fl fls)
  then obtain st1 where a: "initializeDecls paths name pk fl (Decls fl) st = Inr st1"
    and b: "initializeFiles paths name pk fls st1 = Inr st'"
    by (auto split: sum.splits)
  from Cons.IH [OF b Cons.prems(2)] show ?case
  proof
    assume "snd st1 s = Some f"
    from initializeDecls_snd [OF a this] show ?thesis by auto
  next
    assume "s \<noteq> NilSig \<and> pkg f = pk \<and> file' f \<in> set fls \<and> matching s (Decls (file' f)) \<noteq> []"
    then show ?thesis by simp
  qed
qed

lemma initializePkgs_snd:
  assumes "initializePkgs paths name pkgs st = Inr st'" and "snd st' s = Some f"
  shows "snd st s = Some f \<or> indexedFrom paths pkgs s f"
  using assms
proof (induction pkgs arbitrary: st)
  case Nil
  then show ?case by simp
next
  case (Cons pk pkgs)
  show ?case
  proof (cases "isGoModPkg paths (PkgPath pk)")
    case False
    with Cons.prems have "initializePkgs paths name pkgs st = Inr st'" by simp
    from Cons.IH [OF this Cons.prems(2)] show ?thesis by (auto simp: indexedFrom_def)
  next
    case True
    with Cons.prems obtain st1 where a: "initializeFiles paths name pk (Syntax pk) st = Inr st1"
      and b: "initializePkgs paths name pkgs st1 = Inr st'"
      by (auto split: sum.splits list.splits if_splits)
    from Cons.IH [OF b Cons.prems(2)] show ?thesis
    proof
      assume "snd st1 s = Some f"
      from initializeFiles_snd [OF a this] True show ?thesis by (auto simp: indexedFrom_def)
    next
      assume "indexedFrom paths pkgs s f"
      then show ?thesis by (auto simp: indexedFrom_def)
    qed
  qed
qed

lemma processFunction_leaf:
  "funcToFileAndPkg p s = None \<Longrightarrow> processFunction fs s depth p = Inr p"
  by simp

lemma depWorld_paths: "parseGoModFile depWorld = Inr [''m'', ''d'']"
  by code_simp

lemma depWorld_pkgs: "loadPackages depWorld = Inr [depRoot, depLib]"
  by (simp add: loadPackages_def depWorld_def exWorld_def)

lemma depWorld_init:
  "initialize depWorld ''E'' = Inr (SigAt 0,
     [SigAt 0 \<mapsto> \<lparr> file' = \<lparr> Decls = [exFunc ''m.go'' ''E'' 0 1 [1]] \<rparr>, pkg = depRoot \<rparr>,
      SigAt 1 \<mapsto> \<lparr> file' = \<lparr> Decls = [exFunc ''d.go'' ''A'' 1 1 []] \<rparr>, pkg = depLib \<rparr>])"
  by (simp add: initialize_def depWorld_paths depWorld_pkgs initializeDecl_def
      depRoot_def depLib_def exPkg_def exFunc_def exIdent_def HasPrefix_def)

section \<open>Properties of the Source Slicer\<close>

lemma writeLines_block:
  "0 \<le> i \<Longrightarrow> to < int (length lines) \<Longrightarrow>
   writeLines lines i to sb = Inr (sb @ lineBlock lines (i + 1) (to + 1))"
proof (induction lines i to sb rule: writeLines.induct)
  case (1 lines i to sb)
  show ?case
  proof (cases "i \<le> to")
    case False
    then show ?thesis by (simp add: lineBlock_def)
  next
    case True
    with "1.prems" have r: "0 \<le> i \<and> i < int (length lines)" by simp
    then have "nat i < length lines" by linarith
    then have d: "drop (nat i) lines = lines ! nat i # drop (Suc (nat i)) lines"
      by (rule Cons_nth_drop_Suc [symmetric])
    from True have t: "nat (to + 1 - (i + 1) + 1) = Suc (nat (to + 1 - (i + 2) + 1))"
      by simp
    have s: "nat (i + 2 - 1) = Suc (nat i)" using r by linarith
    have "lineBlock lines (i + 1) (to + 1) = lines ! nat i @ [newline] @ lineBlock lines (i + 2) (to + 1)"
      unfolding lineBlock_def t s using d by simp
    moreover from "1.IH" [OF True r] "1.prems" r
    have "writeLines lines (i + 1) to (sb @ lines ! nat i @ [newline])
            = Inr ((sb @ lines ! nat i @ [newline]) @ lineBlock lines (i + 1 + 1) (to + 1))"
      by simp
    ultimately show ?thesis using True r
      by (subst writeLines.simps) (simp add: add.commute)
  qed
qed

lemma lineBlock_append:
  assumes "1 \<le> a" and "a \<le> b + 1" and "b \<le> c"
  shows "lineBlock lines a b @ lineBlock lines (b + 1) c = lineBlock lines a c"
proof -
  have n: "nat (c - a + 1) = nat (b - a + 1) + nat (c - (b + 1) + 1)"
    using assms by simp
  have d: "nat (b + 1 - 1) = nat (b - a + 1) + nat (a - 1)"
    using assms by simp
  have e: "take (nat (b - a + 1) + nat (c - (b + 1) + 1)) (drop (nat (a - 1)) lines)
      = take (nat (b - a + 1)) (drop (nat (a - 1)) lines)
        @ take (nat (c - (b + 1) + 1)) (drop (nat (b - a + 1) + nat (a - 1)) lines)"
    by (simp add: take_add)
  show ?thesis
    unfolding lineBlock_def n d e by simp
qed

lemma lineBlock_empty: "b < a \<Longrightarrow> lineBlock lines a b = []"
  by (simp add: lineBlock_def)

lemma writeComments_blocks:
  "commentsInRange lines cs \<Longrightarrow> writeComments lines cs sb = Inr (sb @ commentBlocks lines cs)"
proof (induction cs arbitrary: sb)
  case Nil
  then show ?case by (simp add: commentBlocks_def)
next
  case (Cons c cs)
  then have r: "commentsInRange lines cs" by (simp add: commentsInRange_def)
  show ?case
  proof (cases c)
    case None
    with Cons.IH [OF r] show ?thesis by (simp add: commentBlocks_def)
  next
    case (Some cm)
    with Cons.prems have "0 \<le> Line (c_Pos cm) - 1" and "Line (c_End cm) - 1 < int (length lines)"
      by (simp_all add: commentsInRange_def linesInRange_def)
    from writeLines_block [OF this] Cons.IH [OF r] Some show ?thesis
      by (simp add: commentBlocks_def)
  qed
qed

lemma chained_blocks:
  "1 \<le> a \<Longrightarrow> chained cs a e \<Longrightarrow> commentBlocks lines cs = lineBlock lines a (e - 1) \<and> a \<le> e"
proof (induction cs a e rule: chained.induct)
  case (1 a e)
  then show ?case by (simp add: commentBlocks_def lineBlock_def)
next
  case (2 cs a e)
  then show ?case by (simp add: commentBlocks_def)
next
  case (3 c cs a e)
  then have i: "commentBlocks lines cs = lineBlock lines (Line (c_End c) + 1) (e - 1)"
    and l: "Line (c_End c) + 1 \<le> e" and p: "Line (c_Pos c) = a" "a \<le> Line (c_End c)"
    by simp_all
  from lineBlock_append [of a "Line (c_End c)" "e - 1" lines] "3.prems"(1) l p i
  show ?case by (simp add: commentBlocks_def)
qed

lemma splitFrom_join:
  "concat (map (\<lambda>l. l @ [c]) (splitFrom c w s)) = w @ s @ [c]"
  by (induction s arbitrary: w) simp_all

section \<open>Properties of the Call Graph Walker\<close>

text \<open>
  The equations of \<open>processFunction\<close> and \<open>processUnderlyingFunctions\<close> hold for
  all arguments; they are unfolded by hand.
\<close>

declare processFunction.simps [simp del]
declare processUnderlyingFunctions.simps [simp del]

lemma wrap64_below: "wrap64 x < 2 ^ 63"
  by (simp add: wrap64_def)

lemma wrap64_above: "- (2 ^ 63) \<le> wrap64 x"
  by (simp add: wrap64_def)

lemma wrap64_id: "- (2 ^ 63) \<le> x \<Longrightarrow> x < 2 ^ 63 \<Longrightarrow> wrap64 x = x"
  by (simp add: wrap64_def)

lemma wrap64_least: "wrap64 (- (2 ^ 63) - 1) = 2 ^ 63 - 1"
  by (simp add: wrap64_def)

lemma wrap64_pred: "0 < wrap64 x \<Longrightarrow> wrap64 (wrap64 x - 1) = wrap64 x - 1"
  using wrap64_below [of x] by (intro wrap64_id) simp_all

lemmas walker_induct =
  processFunction_processFunctionInspect_processUnderlyingFunctions_processUnderlyingInspect.induct

lemma addFunction_index [simp]:
  "funcToFileAndPkg (addFunction f s src p) = funcToFileAndPkg p"
  by (simp add: addFunction_def)

lemma processFunction_cases:
  assumes "processFunction fs s d p = Inr p'"
  obtains "seen p s" "p' = p"
  | "\<not> seen p s" "funcToFileAndPkg p s = None" "p' = p"
  | f where "\<not> seen p s" "funcToFileAndPkg p s = Some f"
      "processFunctionInspect fs f s d (Decls (file' f)) p = Inr p'"
  using assms by (auto simp: processFunction.simps split: if_splits option.splits)

lemma processFunctionInspect_cases:
  assumes "processFunctionInspect fs f s d (n # ns) p = Inr p'"
  obtains "matchDecl s n = Inr None" "processFunctionInspect fs f s d ns p = Inr p'"
  | fn src q where "matchDecl s n = Inr (Some fn)" "extractSourceCode fs fn = Inr src"
      "processUnderlyingFunctions fs (pkg f) fn (wrap64 (d - 1)) (addFunction f s src p) = Inr q"
      "processFunctionInspect fs f s d ns q = Inr p'"
  using assms by (auto split: sum.splits option.splits)

lemma processUnderlyingFunctions_cases:
  assumes "processUnderlyingFunctions fs pk fn d p = Inr p'"
  obtains "d \<le> 0" "p' = p"
  | "0 < d" "Body fn = None" "p' = p"
  | body where "0 < d" "Body fn = Some body" "processUnderlyingInspect fs pk d body p = Inr p'"
  using assms by (auto simp: processUnderlyingFunctions.simps split: if_splits option.splits)

lemma processUnderlyingInspect_cases:
  assumes "processUnderlyingInspect fs pk d (n # ns) p = Inr p'"
  obtains "callTarget n = None" "processUnderlyingInspect fs pk d ns p = Inr p'"
  | t q where "callTarget n = Some t" "processFunction fs t d p = Inr q"
      "processUnderlyingInspect fs pk d ns q = Inr p'"
  using assms by (auto split: sum.splits option.splits)

lemma walker_index:
  "(\<forall>p'. processFunction fs s d p = Inr p' \<longrightarrow> funcToFileAndPkg p' = funcToFileAndPkg p)"
  "(\<forall>p'. processFunctionInspect fs f s d ds p = Inr p' \<longrightarrow> funcToFileAndPkg p' = funcToFileAndPkg p)"
  "(\<forall>p'. processUnderlyingFunctions fs pk fn d p = Inr p' \<longrightarrow> funcToFileAndPkg p' = funcToFileAndPkg p)"
  "(\<forall>p'. processUnderlyingInspect fs pk d ns p = Inr p' \<longrightarrow> funcToFileAndPkg p' = funcToFileAndPkg p)"
proof (induction fs s d p and fs f s d ds p and fs pk fn d p and fs pk d ns p rule: walker_induct)
  case (1 fs funcSig depth p)
  show ?case
  proof (intro allI impI)
    fix p' assume "processFunction fs funcSig depth p = Inr p'"
    then show "funcToFileAndPkg p' = funcToFileAndPkg p"
      by (cases rule: processFunction_cases) (use 1 in auto)
  qed
next
  case (2 fs f funcSig depth p)
  then show ?case by simp
next
  case (3 fs f funcSig depth n ns p)
  show ?case
  proof (intro allI impI)
    fix p' assume "processFunctionInspect fs f funcSig depth (n # ns) p = Inr p'"
    then show "funcToFileAndPkg p' = funcToFileAndPkg p"
    proof (cases rule: processFunctionInspect_cases)
      case 1
      with 3(1) show ?thesis by simp
    next
      case (2 fn src q)
      from 3(2) [OF 2(1) refl 2(2)] 2(3) have "funcToFileAndPkg q = funcToFileAndPkg p" by simp
      moreover from 3(3) [OF 2(1) refl 2(2) 2(3)] 2(4)
      have "funcToFileAndPkg p' = funcToFileAndPkg q" by simp
      ultimately show ?thesis by simp
    qed
  qed
next
  case (4 fs pk fn depth p)
  show ?case
  proof (intro allI impI)
    fix p' assume "processUnderlyingFunctions fs pk fn depth p = Inr p'"
    then show "funcToFileAndPkg p' = funcToFileAndPkg p"
      by (cases rule: processUnderlyingFunctions_cases) (use 4 in auto)
  qed
next
  case (5 fs pk depth p)
  then show ?case by simp
next
  case (6 fs pk depth n ns p)
  show ?case
  proof (intro allI impI)
    fix p' assume "processUnderlyingInspect fs pk depth (n # ns) p = Inr p'"
    then show "funcToFileAndPkg p' = funcToFileAndPkg p"
    proof (cases rule: processUnderlyingInspect_cases)
      case 1
      with 6(1) show ?thesis by simp
    next
      case (2 t q)
      from 6(2) [OF 2(1)] 2(2) have "funcToFileAndPkg q = funcToFileAndPkg p" by simp
      moreover from 6(3) [OF 2(1) 2(2)] 2(3) have "funcToFileAndPkg p' = funcToFileAndPkg q" by simp
      ultimately show ?thesis by simp
    qed
  qed
qed

lemma walker_rel:
  assumes r_refl: "\<And>p. R p p"
    and r_trans: "\<And>p q r. R p q \<Longrightarrow> R q r \<Longrightarrow> R p r"
    and r_step: "\<And>f s src p. funcToFileAndPkg p s = Some f \<Longrightarrow> R p (addFunction f s src p)"
  shows "(\<forall>p'. processFunction fs s d p = Inr p' \<longrightarrow> R p p')"
    "(\<forall>p'. funcToFileAndPkg p s = Some f \<longrightarrow> processFunctionInspect fs f s d ds p = Inr p' \<longrightarrow> R p p')"
    "(\<forall>p'. processUnderlyingFunctions fs pk fn d p = Inr p' \<longrightarrow> R p p')"
    "(\<forall>p'. processUnderlyingInspect fs pk d ns p = Inr p' \<longrightarrow> R p p')"
proof (induction fs s d p and fs f s d ds p and fs pk fn d p and fs pk d ns p rule: walker_induct)
  case (1 fs funcSig depth p)
  show ?case
  proof (intro allI impI)
    fix p' assume "processFunction fs funcSig depth p = Inr p'"
    then show "R p p'"
      by (cases rule: processFunction_cases) (use 1 r_refl in auto)
  qed
next
  case (2 fs f funcSig depth p)
  then show ?case by (simp add: r_refl)
next
  case (3 fs f funcSig depth n ns p)
  show ?case
  proof (intro allI impI)
    fix p'
    assume i: "funcToFileAndPkg p funcSig = Some f"
      and r: "processFunctionInspect fs f funcSig depth (n # ns) p = Inr p'"
    from r show "R p p'"
    proof (cases rule: processFunctionInspect_cases)
      case 1
      with 3(1) i show ?thesis by simp
    next
      case (2 fn src q)
      from walker_index(3) 2(3) have "funcToFileAndPkg q = funcToFileAndPkg p" by fastforce
      with 3(3) [OF 2(1) refl 2(2) 2(3)] i 2(4) have "R q p'" by simp
      moreover from 3(2) [OF 2(1) refl 2(2)] 2(3) have "R (addFunction f funcSig src p) q" by simp
      ultimately show ?thesis using r_step [OF i, of src] r_trans by blast
    qed
  qed
next
  case (4 fs pk fn depth p)
  show ?case
  proof (intro allI impI)
    fix p' assume "processUnderlyingFunctions fs pk fn depth p = Inr p'"
    then show "R p p'"
      by (cases rule: processUnderlyingFunctions_cases) (use 4 r_refl in auto)
  qed
next
  case (5 fs pk depth p)
  then show ?case by (simp add: r_refl)
next
  case (6 fs pk depth n ns p)
  show ?case
  proof (intro allI impI)
    fix p'
    assume r: "processUnderlyingInspect fs pk depth (n # ns) p = Inr p'"
    then show "R p p'"
    proof (cases rule: processUnderlyingInspect_cases)
      case 1
      with 6(1) show ?thesis by simp
    next
      case (2 t q)
      from 6(2) [OF 2(1)] 2(2) 6(3) [OF 2(1) 2(2)] 2(3) r_trans show ?thesis by blast
    qed
  qed
qed

lemma grows_refl: "grows p p"
  by (simp add: grows_def)

lemma grows_trans: "grows p q \<Longrightarrow> grows q r \<Longrightarrow> grows p r"
  unfolding grows_def
  apply (intro conjI)
      apply simp
     apply blast
    apply (metis append.assoc)
   apply blast
  apply (metis append.assoc)
  done

lemma grows_addFunction: "grows p (addFunction f s src p)"
  by (auto simp: grows_def addFunction_def lookupText_def split: option.splits)

lemma walker_grows:
  "processFunction fs s d p = Inr p' \<Longrightarrow> grows p p'"
  "funcToFileAndPkg p s = Some f \<Longrightarrow> processFunctionInspect fs f s d ds p = Inr p' \<Longrightarrow> grows p p'"
  "processUnderlyingFunctions fs pk fn d p = Inr p' \<Longrightarrow> grows p p'"
  "processUnderlyingInspect fs pk d ns p = Inr p' \<Longrightarrow> grows p p'"
     apply (rule walker_rel(1) [where R = grows, rule_format])
        apply (rule grows_refl)
       apply (erule grows_trans, assumption)
      apply (rule grows_addFunction)
     apply assumption
    apply (rule walker_rel(2) [where R = grows, rule_format])
        apply (rule grows_refl)
       apply (erule grows_trans, assumption)
      apply (rule grows_addFunction)
     apply assumption
    apply assumption
   apply (rule walker_rel(3) [where R = grows, rule_format])
      apply (rule grows_refl)
     apply (erule grows_trans, assumption)
    apply (rule grows_addFunction)
   apply assumption
  apply (rule walker_rel(4) [where R = grows, rule_format])
     apply (rule grows_refl)
    apply (erule grows_trans, assumption)
   apply (rule grows_addFunction)
  apply assumption
  done

lemma within_self: "s \<in> within index k s"
  by (cases k) simp_all

lemma seenSet_addFunction [simp]: "seenSet (addFunction f s src p) = insert s (seenSet p)"
  by (auto simp: seenSet_def addFunction_def)

lemma matching_member:
  "n \<in> set ds \<Longrightarrow> matchDecl s n = Inr (Some fn) \<Longrightarrow> fn \<in> set (matching s ds)"
  by (induction ds) (auto split: sum.splits option.splits)

lemma matching_subset:
  "set ds \<subseteq> set es \<Longrightarrow> set (matching s ds) \<subseteq> set (matching s es)"
  by (auto simp: matching_def split: sum.splits option.splits)

lemma walker_depth:
  "(\<forall>p'. processFunction fs s d p = Inr p' \<longrightarrow>
      seenSet p' \<subseteq> seenSet p \<union> within (funcToFileAndPkg p) (nat (wrap64 (d - 1))) s)"
  "(\<forall>p'. funcToFileAndPkg p s = Some f \<longrightarrow> set ds \<subseteq> set (Decls (file' f)) \<longrightarrow>
      processFunctionInspect fs f s d ds p = Inr p' \<longrightarrow>
      seenSet p' \<subseteq> seenSet p \<union> within (funcToFileAndPkg p) (nat (wrap64 (d - 1))) s)"
  "(\<forall>p'. processUnderlyingFunctions fs pk fn d p = Inr p' \<longrightarrow>
      seenSet p' \<subseteq> seenSet p \<union>
        (if d \<le> 0 then {}
         else (\<Union>t \<in> set (bodyTargets fn). within (funcToFileAndPkg p) (nat (wrap64 (d - 1))) t)))"
  "(\<forall>p'. processUnderlyingInspect fs pk d ns p = Inr p' \<longrightarrow>
      seenSet p' \<subseteq> seenSet p \<union>
        (\<Union>t \<in> set (List.map_filter callTarget ns). within (funcToFileAndPkg p) (nat (wrap64 (d - 1))) t))"
proof (induction fs s d p and fs f s d ds p and fs pk fn d p and fs pk d ns p rule: walker_induct)
  case (1 fs funcSig depth p)
  show ?case
  proof (intro allI impI)
    fix p' assume "processFunction fs funcSig depth p = Inr p'"
    then show "seenSet p' \<subseteq> seenSet p \<union> within (funcToFileAndPkg p) (nat (wrap64 (depth - 1))) funcSig"
      by (cases rule: processFunction_cases) (use 1 in auto)
  qed
next
  case (2 fs f funcSig depth p)
  then show ?case by simp
next
  case (3 fs f funcSig depth n ns p)
  show ?case
  proof (intro allI impI)
    fix p'
    assume i: "funcToFileAndPkg p funcSig = Some f"
      and sub: "set (n # ns) \<subseteq> set (Decls (file' f))"
      and r: "processFunctionInspect fs f funcSig depth (n # ns) p = Inr p'"
    let ?W = "within (funcToFileAndPkg p) (nat (wrap64 (depth - 1))) funcSig"
    from r show "seenSet p' \<subseteq> seenSet p \<union> ?W"
    proof (cases rule: processFunctionInspect_cases)
      case 1
      with 3(1) i sub show ?thesis by simp
    next
      case (2 fn src q)
      from walker_index(3) 2(3) have iq: "funcToFileAndPkg q = funcToFileAndPkg p" by fastforce
      from 3(3) [OF 2(1) refl 2(2) 2(3)] i iq sub 2(4)
      have t: "seenSet p' \<subseteq> seenSet q \<union> ?W" by simp
      note ih = 3(2) [OF 2(1) refl 2(2), rule_format, OF 2(3)]
      let ?e = "wrap64 (depth - 1)"
      have "seenSet q \<subseteq> seenSet p \<union> ?W"
      proof (cases "?e \<le> 0")
        case True
        with ih have "seenSet q \<subseteq> insert funcSig (seenSet p)" by simp
        with within_self [of funcSig] show ?thesis by auto
      next
        case False
        then have k: "nat ?e = Suc (nat (wrap64 (?e - 1)))"
          using wrap64_pred [of "depth - 1"] by simp
        from ih False have u: "seenSet q \<subseteq> insert funcSig (seenSet p) \<union>
            (\<Union>t \<in> set (bodyTargets fn). within (funcToFileAndPkg p) (nat (wrap64 (?e - 1))) t)"
          by simp
        from sub 2(1) have "fn \<in> set (matching funcSig (Decls (file' f)))"
          by (auto intro: matching_member)
        then have "set (bodyTargets fn) \<subseteq> set (callees (funcToFileAndPkg p) funcSig)"
          by (auto simp: callees_def i)
        with u show ?thesis unfolding k by auto
      qed
      with t show ?thesis by blast
    qed
  qed
next
  case (4 fs pk fn depth p)
  show ?case
  proof (intro allI impI)
    fix p' assume "processUnderlyingFunctions fs pk fn depth p = Inr p'"
    then show "seenSet p' \<subseteq> seenSet p \<union>
        (if depth \<le> 0 then {}
         else (\<Union>t \<in> set (bodyTargets fn). within (funcToFileAndPkg p) (nat (wrap64 (depth - 1))) t))"
    proof (cases rule: processUnderlyingFunctions_cases)
      case 1
      then show ?thesis by simp
    next
      case 2
      then show ?thesis by simp
    next
      case (3 body)
      with 4 [of body] show ?thesis by (simp add: bodyTargets_def)
    qed
  qed
next
  case (5 fs pk depth p)
  then show ?case by simp
next
  case (6 fs pk depth n ns p)
  show ?case
  proof (intro allI impI)
    fix p'
    assume r: "processUnderlyingInspect fs pk depth (n # ns) p = Inr p'"
    then show "seenSet p' \<subseteq> seenSet p \<union>
        (\<Union>t \<in> set (List.map_filter callTarget (n # ns)). within (funcToFileAndPkg p) (nat (wrap64 (depth - 1))) t)"
    proof (cases rule: processUnderlyingInspect_cases)
      case 1
      with 6(1) show ?thesis by (simp add: List.map_filter_simps)
    next
      case (2 t q)
      from walker_index(1) 2(2) have iq: "funcToFileAndPkg q = funcToFileAndPkg p" by fastforce
      from 6(2) [OF 2(1)] 2(2)
      have a: "seenSet q \<subseteq> seenSet p \<union> within (funcToFileAndPkg p) (nat (wrap64 (depth - 1))) t" by simp
      from 6(3) [OF 2(1) 2(2)] 2(3) iq
      have b: "seenSet p' \<subseteq> seenSet q \<union>
        (\<Union>t \<in> set (List.map_filter callTarget ns). within (funcToFileAndPkg p) (nat (wrap64 (depth - 1))) t)"
        by simp
      from a b 2(1) show ?thesis by (auto simp: List.map_filter_simps)
    qed
  qed
qed

lemma inspect_first_match:
  assumes "funcToFileAndPkg p s = Some f"
    and "processFunctionInspect fs f s d ds p = Inr p'"
    and "matching s ds \<noteq> []"
  shows "\<exists>src. extractSourceCode fs (hd (matching s ds)) = Inr src
           \<and> grows (addFunction f s src p) p'"
  using assms
proof (induction ds arbitrary: p)
  case Nil
  then show ?case by simp
next
  case (Cons n ns)
  from Cons.prems(2) show ?case
  proof (cases rule: processFunctionInspect_cases)
    case 1
    with Cons show ?thesis by simp
  next
    case (2 fn src q)
    from walker_grows(3) [OF 2(3)] have a: "grows (addFunction f s src p) q" .
    then have "funcToFileAndPkg q s = Some f" using Cons.prems(1) by (simp add: grows_def)
    from walker_grows(2) [OF this 2(4)] have "grows q p'" .
    with a have "grows (addFunction f s src p) p'" by (rule grows_trans)
    with 2(1) 2(2) show ?thesis by simp
  qed
qed

lemma processFunction_includes:
  assumes "processFunction fs s d p = Inr p'"
    and "funcToFileAndPkg p s = Some f"
    and "matching s (Decls (file' f)) \<noteq> []"
  shows "seen p' s"
  using assms(1)
proof (cases rule: processFunction_cases)
  case 1
  then show ?thesis by simp
next
  case 2
  with assms show ?thesis by simp
next
  case (3 g)
  with assms(2) have "g = f" by simp
  with inspect_first_match [OF assms(2) _ assms(3)] 3(3)
  obtain src where "grows (addFunction f s src p) p'" by blast
  then show ?thesis by (simp add: grows_def addFunction_def)
qed

lemma orderly_addFunction: "orderly p \<Longrightarrow> orderly (addFunction f s src p)"
  by (auto simp: orderly_def addFunction_def)

lemma orderly_newParser: "orderly (newParser index)"
  by (simp add: orderly_def newParser_def)

lemma walker_orderly:
  assumes "processFunction fs s d p = Inr p'" and "orderly p"
  shows "orderly p'"
proof -
  define R where "R = (\<lambda>p q. orderly p \<longrightarrow> orderly q)"
  have a: "\<And>p. R p p" by (simp add: R_def)
  have b: "\<And>p q r. R p q \<Longrightarrow> R q r \<Longrightarrow> R p r" by (simp add: R_def)
  have c: "\<And>f s src p. funcToFileAndPkg p s = Some f \<Longrightarrow> R p (addFunction f s src p)"
    by (simp add: R_def orderly_addFunction)
  have "R p p'"
    by (rule walker_rel(1) [where R = R, rule_format, OF _ _ _ assms(1)])
      (rule a, erule b, assumption, erule c)
  with assms(2) show ?thesis by (simp add: R_def)
qed

lemma toStringLoop_agree:
  assumes "\<forall>pk \<in> set rest. functions' q pk = functions' p pk"
    and "length (pkgOrder q) = length (pkgOrder p)"
  shows "toStringLoop q excludeRoot codeOnly k rest result
       = toStringLoop p excludeRoot codeOnly k rest result"
  using assms
proof (induction rest arbitrary: k result)
  case Nil
  then show ?case by simp
next
  case (Cons pk rest)
  then have l: "lookupText (functions' q) pk = lookupText (functions' p) pk"
    by (simp add: lookupText_def)
  from Cons.prems have r: "\<forall>pk \<in> set rest. functions' q pk = functions' p pk" by simp
  note ih = Cons.IH [OF r Cons.prems(2)]
  show ?case
  proof (cases "k = 0 \<and> excludeRoot")
    case True
    then show ?thesis using ih [of "k + 1" result] by simp
  next
    case False
    then show ?thesis using l Cons.prems(2) by (auto simp: Let_def ih)
  qed
qed

lemma toString_root_omitted:
  assumes "orderly p" and "pkgOrder p = root # rest"
  shows "toString (p\<lparr>functions' := (functions' p)(root := txt)\<rparr>) True codeOnly
       = toString p True codeOnly"
proof -
  from assms have "root \<notin> set rest" by (simp add: orderly_def)
  then have "\<forall>pk \<in> set rest. functions' (p\<lparr>functions' := (functions' p)(root := txt)\<rparr>) pk
      = functions' p pk" by auto
  from toStringLoop_agree [OF this, of True codeOnly 1 "[]"] assms(2)
  show ?thesis by (simp add: toString_def)
qed

lemma initializeDecl_entry:
  assumes "initializeDecl paths name pk fl n st = Inr st'"
    and "fst st = NilSig \<or> snd st (fst st) \<noteq> None"
  shows "fst st' = NilSig \<or> snd st' (fst st') \<noteq> None"
  using assms
  by (auto simp: initializeDecl_def
      split: decl.splits option.splits gotype.splits if_splits list.splits)

lemma initializeDecls_entry:
  assumes "initializeDecls paths name pk fl ns st = Inr st'"
    and "fst st = NilSig \<or> snd st (fst st) \<noteq> None"
  shows "fst st' = NilSig \<or> snd st' (fst st') \<noteq> None"
  using assms
proof (induction ns arbitrary: st)
  case Nil
  then show ?case by simp
next
  case (Cons n ns)
  then obtain st1 where a: "initializeDecl paths name pk fl n st = Inr st1"
    and b: "initializeDecls paths name pk fl ns st1 = Inr st'"
    by (auto split: sum.splits)
  from Cons.IH [OF b initializeDecl_entry [OF a Cons.prems(2)]] show ?case .
qed

lemma initializeFiles_entry:
  assumes "initializeFiles paths name pk fls st = Inr st'"
    and "fst st = NilSig \<or> snd st (fst st) \<noteq> None"
  shows "fst st' = NilSig \<or> snd st' (fst st') \<noteq> None"
  using assms
proof (induction fls arbitrary: st)
  case Nil
  then show ?case by simp
next
  case (Cons fl fls)
  then obtain st1 where a: "initializeDecls paths name pk fl (Decls fl) st = Inr st1"
    and b: "initializeFiles paths name pk fls st1 = Inr st'"
    by (auto split: sum.splits)
  from Cons.IH [OF b initializeDecls_entry [OF a Cons.prems(2)]] show ?case .
qed

lemma initializePkgs_entry:
  assumes "initializePkgs paths name pkgs st = Inr st'"
    and "fst st = NilSig \<or> snd st (fst st) \<noteq> None"
  shows "fst st' = NilSig \<or> snd st' (fst st') \<noteq> None"
  using assms
proof (induction pkgs arbitrary: st)
  case Nil
  then show ?case by simp
next
  case (Cons pk pkgs)
  show ?case
  proof (cases "isGoModPkg paths (PkgPath pk)")
    case False
    with Cons show ?thesis by simp
  next
    case True
    with Cons.prems obtain st1 where a: "initializeFiles paths name pk (Syntax pk) st = Inr st1"
      and b: "initializePkgs paths name pkgs st1 = Inr st'"
      by (auto split: sum.splits list.splits if_splits)
    from Cons.IH [OF b initializeFiles_entry [OF a Cons.prems(2)]] show ?thesis .
  qed
qed

lemma initialize_entry:
  assumes "initialize w name = Inr (funcSig, index)" and "funcSig \<noteq> NilSig"
  shows "\<exists>f. index funcSig = Some f \<and> matching funcSig (Decls (file' f)) \<noteq> []"
proof -
  from assms(1) obtain paths pkgs where
    i: "initializePkgs paths name pkgs (NilSig, Map.empty) = Inr (funcSig, index)"
    by (auto simp: initialize_def split: sum.splits)
  from initializePkgs_entry [OF i] assms(2) obtain f where f: "index funcSig = Some f" by auto
  from initializePkgs_snd [OF i, of funcSig f] f show ?thesis by (auto simp: indexedFrom_def)
qed

lemma grows_text:
  assumes "grows (addFunction f s src q) q'"
  shows "\<exists>t. lookupText (functions' q') (pkg f)
            = lookupText (functions' q) (pkg f) @ [newline] @ src @ t"
proof -
  from assms obtain t where
    "lookupText (functions' q') (pkg f) = lookupText (functions' (addFunction f s src q)) (pkg f) @ t"
    unfolding grows_def by blast
  then show ?thesis by (simp add: addFunction_def lookupText_def)
qed

lemma matchDecl_FuncDecl: "matchDecl s n = Inr (Some fn) \<Longrightarrow> n = FuncDecl fn"
  by (auto simp: matchDecl_def split: decl.splits option.splits gotype.splits if_splits)

lemma declHealthy_match:
  "declHealthy fs n \<Longrightarrow> \<exists>b. matchDecl s n = Inr b"
  by (auto simp: declHealthy_def matchDecl_def split: decl.splits option.splits gotype.splits)

lemma declHealthy_extract:
  "declHealthy fs (FuncDecl fn) \<Longrightarrow> \<exists>src. extractSourceCode fs fn = Inr src"
  by (cases "extractSourceCode fs fn") (auto simp: declHealthy_def)

lemma walker_total:
  "healthy fs (funcToFileAndPkg p) \<longrightarrow> (\<exists>p'. processFunction fs s d p = Inr p')"
  "healthy fs (funcToFileAndPkg p) \<longrightarrow> list_all (declHealthy fs) ds \<longrightarrow>
     (\<exists>p'. processFunctionInspect fs f s d ds p = Inr p')"
  "healthy fs (funcToFileAndPkg p) \<longrightarrow> (\<exists>p'. processUnderlyingFunctions fs pk fn d p = Inr p')"
  "healthy fs (funcToFileAndPkg p) \<longrightarrow> (\<exists>p'. processUnderlyingInspect fs pk d ns p = Inr p')"
proof (induction fs s d p and fs f s d ds p and fs pk fn d p and fs pk d ns p rule: walker_induct)
  case (1 fs funcSig depth p)
  show ?case
  proof
    assume h: "healthy fs (funcToFileAndPkg p)"
    show "\<exists>p'. processFunction fs funcSig depth p = Inr p'"
    proof (cases "seen p funcSig")
      case True
      then show ?thesis by (simp add: processFunction.simps)
    next
      case False
      show ?thesis
      proof (cases "funcToFileAndPkg p funcSig")
        case None
        with False show ?thesis by (simp add: processFunction.simps)
      next
        case (Some f)
        with h have "list_all (declHealthy fs) (Decls (file' f))" by (auto simp: healthy_def)
        with 1 [OF False Some] h False Some show ?thesis by (simp add: processFunction.simps)
      qed
    qed
  qed
next
  case (2 fs f funcSig depth p)
  then show ?case by simp
next
  case (3 fs f funcSig depth n ns p)
  show ?case
  proof (intro impI)
    assume h: "healthy fs (funcToFileAndPkg p)" and l: "list_all (declHealthy fs) (n # ns)"
    then have hn: "declHealthy fs n" and ls: "list_all (declHealthy fs) ns" by simp_all
    from declHealthy_match [OF hn] obtain b where m: "matchDecl funcSig n = Inr b" by blast
    show "\<exists>p'. processFunctionInspect fs f funcSig depth (n # ns) p = Inr p'"
    proof (cases b)
      case None
      with 3(1) [OF m None] h ls m show ?thesis by simp
    next
      case (Some fn)
      with m matchDecl_FuncDecl have "n = FuncDecl fn" by blast
      with hn declHealthy_extract obtain src where e: "extractSourceCode fs fn = Inr src" by blast
      from 3(2) [OF m Some e] h obtain q where
        u: "processUnderlyingFunctions fs (pkg f) fn (wrap64 (depth - 1)) (addFunction f funcSig src p) = Inr q"
        by auto
      from walker_index(3) u have "funcToFileAndPkg q = funcToFileAndPkg p" by fastforce
      with 3(3) [OF m Some e u] h ls obtain p' where
        "processFunctionInspect fs f funcSig depth ns q = Inr p'" by auto
      with m Some e u show ?thesis by simp
    qed
  qed
next
  case (4 fs pk fn depth p)
  show ?case
  proof
    assume h: "healthy fs (funcToFileAndPkg p)"
    show "\<exists>p'. processUnderlyingFunctions fs pk fn depth p = Inr p'"
    proof (cases "depth \<le> 0")
      case True
      then show ?thesis by (simp add: processUnderlyingFunctions.simps)
    next
      case False
      show ?thesis
      proof (cases "Body fn")
        case None
        with False show ?thesis by (simp add: processUnderlyingFunctions.simps)
      next
        case (Some body)
        with 4 [OF False Some] h False show ?thesis
          by (simp add: processUnderlyingFunctions.simps)
      qed
    qed
  qed
next
  case (5 fs pk depth p)
  then show ?case by simp
next
  case (6 fs pk depth n ns p)
  show ?case
  proof
    assume h: "healthy fs (funcToFileAndPkg p)"
    show "\<exists>p'. processUnderlyingInspect fs pk depth (n # ns) p = Inr p'"
    proof (cases "callTarget n")
      case None
      with 6(1) h show ?thesis by simp
    next
      case (Some t)
      from 6(2) [OF Some] h obtain q where a: "processFunction fs t depth p = Inr q" by auto
      from walker_index(1) a have "funcToFileAndPkg q = funcToFileAndPkg p" by fastforce
      with 6(3) [OF Some a] h obtain p' where "processUnderlyingInspect fs pk depth ns q = Inr p'"
        by auto
      with Some a show ?thesis by simp
    qed
  qed
qed

lemma accounted_index:
  "funcToFileAndPkg q = funcToFileAndPkg p \<Longrightarrow> functions' q = functions' p \<Longrightarrow>
   seenSet q = seenSet p \<Longrightarrow> accounted fs q vs = accounted fs p vs"
  by (simp add: accounted_def)

lemma accounted_addFunction:
  assumes i: "funcToFileAndPkg p s = Some f"
    and ns: "\<not> seen p s"
    and a: "accounted fs p vs"
    and m: "matching s (Decls (file' f)) = [fn]"
    and e: "extractSourceCode fs fn = Inr src"
  shows "accounted fs (addFunction f s src p) (vs @ [s])"
proof -
  from a ns have d: "distinct (vs @ [s])" by (auto simp: accounted_def seenSet_def)
  from a have st: "set (vs @ [s]) = seenSet (addFunction f s src p)"
    by (auto simp: accounted_def)
  have c: "chunk fs (funcToFileAndPkg p) s = [newline] @ src"
    by (simp add: chunk_def i m e)
  have k: "pkgOf (funcToFileAndPkg p) s = Some (pkg f)" by (simp add: pkgOf_def i)
  have "lookupText (functions' (addFunction f s src p)) pk =
        concat (map (chunk fs (funcToFileAndPkg p))
                    (filter (\<lambda>s. pkgOf (funcToFileAndPkg p) s = Some pk) (vs @ [s])))" for pk
  proof (cases "pk = pkg f")
    case True
    with a have "lookupText (functions' p) (pkg f) =
        concat (map (chunk fs (funcToFileAndPkg p))
                    (filter (\<lambda>s. pkgOf (funcToFileAndPkg p) s = Some (pkg f)) vs))"
      by (simp add: accounted_def)
    with True c k show ?thesis by (simp add: addFunction_def lookupText_def)
  next
    case False
    with a k show ?thesis by (auto simp: accounted_def addFunction_def lookupText_def)
  qed
  with d st show ?thesis by (simp add: accounted_def)
qed

lemma walker_accounted:
  "(\<forall>vs p'. uniqueDecls (funcToFileAndPkg p) \<longrightarrow> accounted fs p vs \<longrightarrow>
      processFunction fs s d p = Inr p' \<longrightarrow> (\<exists>ws. accounted fs p' (vs @ ws)))"
  "(\<forall>vs p'. uniqueDecls (funcToFileAndPkg p) \<longrightarrow> accounted fs p vs \<longrightarrow>
      funcToFileAndPkg p s = Some f \<longrightarrow>
      (\<not> seen p s \<and> matching s ds = matching s (Decls (file' f)) \<or> matching s ds = []) \<longrightarrow>
      processFunctionInspect fs f s d ds p = Inr p' \<longrightarrow> (\<exists>ws. accounted fs p' (vs @ ws)))"
  "(\<forall>vs p'. uniqueDecls (funcToFileAndPkg p) \<longrightarrow> accounted fs p vs \<longrightarrow>
      processUnderlyingFunctions fs pk fn d p = Inr p' \<longrightarrow> (\<exists>ws. accounted fs p' (vs @ ws)))"
  "(\<forall>vs p'. uniqueDecls (funcToFileAndPkg p) \<longrightarrow> accounted fs p vs \<longrightarrow>
      processUnderlyingInspect fs pk d ns p = Inr p' \<longrightarrow> (\<exists>ws. accounted fs p' (vs @ ws)))"
proof (induction fs s d p and fs f s d ds p and fs pk fn d p and fs pk d ns p rule: walker_induct)
  case (1 fs funcSig depth p)
  show ?case
  proof (intro allI impI)
    fix vs p'
    assume u: "uniqueDecls (funcToFileAndPkg p)" and a: "accounted fs p vs"
      and r: "processFunction fs funcSig depth p = Inr p'"
    from r show "\<exists>ws. accounted fs p' (vs @ ws)"
    proof (cases rule: processFunction_cases)
      case 1
      with a show ?thesis by (intro exI [of _ "[]"]) simp
    next
      case 2
      with a show ?thesis by (intro exI [of _ "[]"]) simp
    next
      case (3 f)
      from 1 [OF 3(1) 3(2), rule_format, OF u a 3(2) _ 3(3)] 3(1) show ?thesis by simp
    qed
  qed
next
  case (2 fs f funcSig depth p)
  show ?case
  proof (intro allI impI)
    fix vs p'
    assume "accounted fs p vs" and "processFunctionInspect fs f funcSig depth [] p = Inr p'"
    then show "\<exists>ws. accounted fs p' (vs @ ws)" by (intro exI [of _ "[]"]) simp
  qed
next
  case (3 fs f funcSig depth n ns p)
  show ?case
  proof (intro allI impI)
    fix vs p'
    assume u: "uniqueDecls (funcToFileAndPkg p)" and a: "accounted fs p vs"
      and i: "funcToFileAndPkg p funcSig = Some f"
      and c: "\<not> seen p funcSig \<and> matching funcSig (n # ns) = matching funcSig (Decls (file' f))
              \<or> matching funcSig (n # ns) = []"
      and r: "processFunctionInspect fs f funcSig depth (n # ns) p = Inr p'"
    from r show "\<exists>ws. accounted fs p' (vs @ ws)"
    proof (cases rule: processFunctionInspect_cases)
      case 1
      with c have "\<not> seen p funcSig \<and> matching funcSig ns = matching funcSig (Decls (file' f))
              \<or> matching funcSig ns = []" by simp
      from 3(1) [OF 1(1) refl, rule_format, OF u a i this 1(2)] show ?thesis .
    next
      case (2 fn src q)
      from 2(1) have mm: "matching funcSig (n # ns) = fn # matching funcSig ns" by simp
      with c have ns: "\<not> seen p funcSig"
        and me: "fn # matching funcSig ns = matching funcSig (Decls (file' f))" by auto
      from u i have "length (matching funcSig (Decls (file' f))) \<le> 1"
        by (simp add: uniqueDecls_def)
      with me have e: "matching funcSig ns = []" and m1: "matching funcSig (Decls (file' f)) = [fn]"
        by (auto simp: me [symmetric])
      from accounted_addFunction [OF i ns a m1 2(2)]
      have a1: "accounted fs (addFunction f funcSig src p) (vs @ [funcSig])" .
      from 3(2) [OF 2(1) refl 2(2), rule_format, OF _ a1 2(3)] u
      obtain ws where a2: "accounted fs q ((vs @ [funcSig]) @ ws)" by auto
      from walker_index(3) 2(3) have iq: "funcToFileAndPkg q = funcToFileAndPkg p" by fastforce
      from 3(3) [OF 2(1) refl 2(2) 2(3), rule_format, OF _ a2 _ _ 2(4)] u i iq e
      obtain ws' where "accounted fs p' (((vs @ [funcSig]) @ ws) @ ws')" by auto
      then show ?thesis by (intro exI [of _ "[funcSig] @ ws @ ws'"]) simp
    qed
  qed
next
  case (4 fs pk fn depth p)
  show ?case
  proof (intro allI impI)
    fix vs p'
    assume u: "uniqueDecls (funcToFileAndPkg p)" and a: "accounted fs p vs"
      and r: "processUnderlyingFunctions fs pk fn depth p = Inr p'"
    from r show "\<exists>ws. accounted fs p' (vs @ ws)"
    proof (cases rule: processUnderlyingFunctions_cases)
      case 1
      with a show ?thesis by (intro exI [of _ "[]"]) simp
    next
      case 2
      with a show ?thesis by (intro exI [of _ "[]"]) simp
    next
      case (3 body)
      from 4 [OF _ 3(2), rule_format, OF _ u a 3(3)] 3(1) show ?thesis by simp
    qed
  qed
next
  case (5 fs pk depth p)
  show ?case
  proof (intro allI impI)
    fix vs p'
    assume "accounted fs p vs" and "processUnderlyingInspect fs pk depth [] p = Inr p'"
    then show "\<exists>ws. accounted fs p' (vs @ ws)" by (intro exI [of _ "[]"]) simp
  qed
next
  case (6 fs pk depth n ns p)
  show ?case
  proof (intro allI impI)
    fix vs p'
    assume u: "uniqueDecls (funcToFileAndPkg p)" and a: "accounted fs p vs"
      and r: "processUnderlyingInspect fs pk depth (n # ns) p = Inr p'"
    from r show "\<exists>ws. accounted fs p' (vs @ ws)"
    proof (cases rule: processUnderlyingInspect_cases)
      case 1
      from 6(1) [OF 1(1), rule_format, OF u a 1(2)] show ?thesis .
    next
      case (2 t q)
      from 6(2) [OF 2(1), rule_format, OF u a 2(2)]
      obtain ws where a1: "accounted fs q (vs @ ws)" by blast
      from walker_index(1) 2(2) have iq: "funcToFileAndPkg q = funcToFileAndPkg p" by fastforce
      from 6(3) [OF 2(1) 2(2), rule_format, OF _ a1 2(3)] u iq
      obtain ws' where "accounted fs p' ((vs @ ws) @ ws')" by auto
      then show ?thesis by (intro exI [of _ "ws @ ws'"]) simp
    qed
  qed
qed

lemma declared_iff:
  "declared index s = (\<exists>f. index s = Some f \<and> matching s (Decls (file' f)) \<noteq> [])"
  by (auto simp: declared_def split: option.splits)

lemma underlying_includes:
  assumes "processUnderlyingInspect fs pk d ns p = Inr p'"
    and "b \<in> set (List.map_filter callTarget ns)"
    and "declared (funcToFileAndPkg p) b"
  shows "seen p' b"
  using assms
proof (induction ns arbitrary: p)
  case Nil
  then show ?case by (simp add: List.map_filter_simps)
next
  case (Cons n ns)
  from Cons.prems(1) show ?case
  proof (cases rule: processUnderlyingInspect_cases)
    case 1
    with Cons show ?thesis by (simp add: List.map_filter_simps)
  next
    case (2 t q)
    from walker_grows(1) [OF 2(2)] have g: "grows p q" .
    then have iq: "funcToFileAndPkg q = funcToFileAndPkg p" by (simp add: grows_def)
    show ?thesis
    proof (cases "b = t")
      case True
      from Cons.prems(3) obtain f where "funcToFileAndPkg p b = Some f"
        "matching b (Decls (file' f)) \<noteq> []" by (auto simp: declared_iff)
      with processFunction_includes 2(2) True have "seen q b" by blast
      moreover from walker_grows(4) [OF 2(3)] have "grows q p'" .
      ultimately show ?thesis by (simp add: grows_def)
    next
      case False
      with Cons.prems(2) 2(1) have "b \<in> set (List.map_filter callTarget ns)"
        by (simp add: List.map_filter_simps)
      from Cons.IH [OF 2(3) this] Cons.prems(3) iq show ?thesis by simp
    qed
  qed
qed

lemma inspect_includes_callees:
  assumes "funcToFileAndPkg p s = Some f"
    and "processFunctionInspect fs f s d ds p = Inr p'"
    and "0 < wrap64 (d - 1)"
    and "fn \<in> set (matching s ds)"
    and "b \<in> set (bodyTargets fn)"
    and "declared (funcToFileAndPkg p) b"
  shows "seen p' b"
  using assms(1,2,4,6)
proof (induction ds arbitrary: p)
  case Nil
  then show ?case by simp
next
  case (Cons n ns)
  from Cons.prems(2) show ?case
  proof (cases rule: processFunctionInspect_cases)
    case 1
    with Cons show ?thesis by simp
  next
    case (2 fn0 src q)
    from walker_grows(3) [OF 2(3)] have g: "grows (addFunction f s src p) q" .
    then have iq: "funcToFileAndPkg q = funcToFileAndPkg p" by (simp add: grows_def)
    from walker_grows(2) [OF _ 2(4)] iq Cons.prems(1) have g2: "grows q p'" by simp
    show ?thesis
    proof (cases "fn = fn0")
      case True
      from 2(3) have "seen q b"
      proof (cases rule: processUnderlyingFunctions_cases)
        case 1
        with assms(3) show ?thesis by simp
      next
        case 2
        with assms(5) True show ?thesis by (simp add: bodyTargets_def)
      next
        case (3 body)
        from assms(5) True 3(2) have "b \<in> set (List.map_filter callTarget body)"
          by (simp add: bodyTargets_def)
        from underlying_includes [OF 3(3) this] Cons.prems(4) show ?thesis by simp
      qed
      with g2 show ?thesis by (simp add: grows_def)
    next
      case False
      with Cons.prems(3) 2(1) have "fn \<in> set (matching s ns)" by simp
      from Cons.IH [OF _ 2(4) this] Cons.prems(1,4) iq show ?thesis by simp
    qed
  qed
qed

lemma processFunction_includes_callees:
  assumes "processFunction fs s d p = Inr p'"
    and "\<not> seen p s"
    and "0 < wrap64 (d - 1)"
    and "b \<in> set (callees (funcToFileAndPkg p) s)"
    and "declared (funcToFileAndPkg p) b"
  shows "seen p' b"
proof -
  from assms(4) obtain f where f: "funcToFileAndPkg p s = Some f"
    by (cases "funcToFileAndPkg p s") (auto simp: callees_def)
  with assms(4) obtain fn where
    fn: "fn \<in> set (matching s (Decls (file' f)))" and b: "b \<in> set (bodyTargets fn)"
    by (auto simp: callees_def)
  from assms(1) have "processFunctionInspect fs f s d (Decls (file' f)) p = Inr p'"
    by (cases rule: processFunction_cases) (use f assms(2) in auto)
  from inspect_includes_callees [OF f this assms(3) fn b assms(5)] show ?thesis .
qed

lemma registered_addFunction:
  "funcToFileAndPkg p s = Some f \<Longrightarrow> registered p \<Longrightarrow> registered (addFunction f s src p)"
  by (auto simp: registered_def addFunction_def split: option.splits)

lemma walker_registered:
  assumes "processFunction fs s d p = Inr p'" and "registered p"
  shows "registered p'"
proof -
  define R where "R = (\<lambda>p q. registered p \<longrightarrow> registered q)"
  have a: "\<And>p. R p p" by (simp add: R_def)
  have b: "\<And>p q r. R p q \<Longrightarrow> R q r \<Longrightarrow> R p r" by (simp add: R_def)
  have c: "\<And>f s src p. funcToFileAndPkg p s = Some f \<Longrightarrow> R p (addFunction f s src p)"
    by (simp add: R_def registered_addFunction)
  have "R p p'"
    by (rule walker_rel(1) [where R = R, rule_format, OF _ _ _ assms(1)])
      (rule a, erule b, assumption, erule c)
  with assms(2) show ?thesis by (simp add: R_def)
qed

lemma registered_newParser: "registered (newParser index)"
  by (simp add: registered_def newParser_def)

lemma entry_first:
  assumes "processFunction fs e d (newParser index) = Inr p"
    and "index e = Some f"
    and "matching e (Decls (file' f)) \<noteq> []"
  shows "\<exists>rest. pkgOrder p = pkg f # rest"
proof -
  have i: "funcToFileAndPkg (newParser index) e = Some f" by (simp add: newParser_def assms(2))
  from assms(1) have "processFunctionInspect fs f e d (Decls (file' f)) (newParser index) = Inr p"
    by (cases rule: processFunction_cases) (use i in \<open>auto simp: newParser_def\<close>)
  from inspect_first_match [OF i this assms(3)] obtain src where
    "grows (addFunction f e src (newParser index)) p" by blast
  then show ?thesis by (auto simp: grows_def addFunction_def newParser_def)
qed

lemma cyc_unique: "uniqueDecls cycIndex"
  by (auto simp: uniqueDecls_def cycIndex_def cycRoot_def exPkg_def exFunc_def exIdent_def
      matchDecl_def split: if_splits)

lemma cyc_healthy: "healthy (files cycWorld) cycIndex"
  by (auto simp: healthy_def cycIndex_def cycRoot_def exPkg_def exFunc_def exIdent_def
      declHealthy_def cycWorld_def exWorld_def extractSourceCode_def splitOn_def newline_def
      split: if_splits)

lemma cyc_init: "initialize cycWorld ''A'' = Inr (SigAt 0, cycIndex)"
proof -
  have a: "parseGoModFile cycWorld = Inr [''m'']" by code_simp
  have b: "loadPackages cycWorld = Inr [cycRoot]"
    by (simp add: loadPackages_def cycWorld_def exWorld_def)
  show ?thesis
    by (simp add: initialize_def a b initializeDecl_def cycIndex_def cycRoot_def exPkg_def
        exFunc_def exIdent_def)
qed

lemma cyc_out:
  "Parse cycWorld ''.'' ''A'' False True =
     Inr ([newline] @ ''A'' @ [newline, newline] @ ''B'' @ [newline])"
  by code_simp

lemma initialize_indexed:
  assumes "initialize w name = Inr (funcSig, index)" and "index s = Some f"
  shows "s \<noteq> NilSig \<and> matching s (Decls (file' f)) \<noteq> []"
proof -
  from assms(1) obtain paths pkgs where
    i: "initializePkgs paths name pkgs (NilSig, Map.empty) = Inr (funcSig, index)"
    by (auto simp: initialize_def split: sum.splits)
  from initializePkgs_snd [OF i, of s f] assms(2) show ?thesis by (auto simp: indexedFrom_def)
qed

lemma included_all:
  assumes "registered p" and "orderly p"
  shows "included p False s = seen p s"
proof (cases "seen p s")
  case False
  then show ?thesis by (simp add: included_def)
next
  case True
  with assms(1) obtain f where f: "funcToFileAndPkg p s = Some f"
    and "functions' p (pkg f) \<noteq> None"
    by (auto simp: registered_def split: option.splits)
  with assms(2) have "pkg f \<in> set (pkgOrder p)" by (auto simp: orderly_def)
  with True f show ?thesis by (simp add: included_def emitted_def)
qed

section \<open>Renaming commutes with the program\<close>

lemma renSig_comp: "renSig r (renSig r' s) = renSig (r \<circ> r') s"
  by (cases s) simp_all

lemma renSig_id: "renSig id s = s"
  by (cases s) simp_all

lemma renType_comp: "renType r (renType r' t) = renType (r \<circ> r') t"
  by (cases t) (simp_all add: renSig_comp)

lemma renType_id: "renType id t = t"
  by (cases t) (simp_all add: renSig_id)

lemma renObject_comp: "renObject r (renObject r' x) = renObject (r \<circ> r') x"
  by (cases x) (simp add: renType_comp)

lemma renObject_id: "renObject id x = x"
  by (cases x) (simp add: renType_id)

lemma renIdent_comp: "renIdent r (renIdent r' x) = renIdent (r \<circ> r') x"
  by (cases x) (simp add: option.map_comp comp_def renObject_comp)

lemma renIdent_id: "renIdent id x = x"
  by (cases x) (simp add: option.map_ident renObject_id cong: option.map_cong)

lemma map_option_id_fun: "(\<And>x. f x = x) \<Longrightarrow> map_option f y = y"
  by (cases y) simp_all

lemma map_id_fun: "(\<And>x. f x = x) \<Longrightarrow> map f ys = ys"
  by (induction ys) simp_all

lemma renExpr_comp: "renExpr r (renExpr r' x) = renExpr (r \<circ> r') x"
  by (cases x) (simp_all add: option.map_comp comp_def renIdent_comp)

lemma renExpr_id: "renExpr id x = x"
  by (cases x) (simp_all add: map_option_id_fun renIdent_id)

lemma renNode_comp: "renNode r (renNode r' x) = renNode (r \<circ> r') x"
  by (cases x) (simp_all add: renExpr_comp)

lemma renNode_id: "renNode id x = x"
  by (cases x) (simp_all add: renExpr_id)

lemma renFunc_comp: "renFunc r (renFunc r' x) = renFunc (r \<circ> r') x"
  by (simp add: renFunc_def option.map_comp comp_def renIdent_comp renNode_comp)

lemma renFunc_id: "renFunc id x = x"
  by (simp add: renFunc_def map_option_id_fun map_id_fun renIdent_id renNode_id)

lemma renDecl_comp: "renDecl r (renDecl r' x) = renDecl (r \<circ> r') x"
  by (cases x) (simp_all add: renFunc_comp)

lemma renDecl_id: "renDecl id x = x"
  by (cases x) (simp_all add: renFunc_id)

lemma renFile_comp: "renFile r (renFile r' x) = renFile (r \<circ> r') x"
  by (simp add: renFile_def comp_def renDecl_comp)

lemma renFile_id: "renFile id x = x"
  by (simp add: renFile_def map_id_fun renDecl_id)

lemma renPkg_comp: "renPkg r (renPkg r' x) = renPkg (r \<circ> r') x"
  by (simp add: renPkg_def comp_def renFile_comp)

lemma renPkg_id: "renPkg id x = x"
  by (simp add: renPkg_def map_id_fun renFile_id)

lemma bij_inverses:
  assumes "bij r"
  shows "inverses r (inv r)"
proof -
  from assms have "inv r \<circ> r = id" by (simp add: bij_is_inj)
  moreover from assms have "surj r" by (rule bij_is_surj)
  then have "r \<circ> inv r = id" by (simp only: surj_iff)
  ultimately show ?thesis by (simp add: inverses_def)
qed

lemma renSig_inv [simp]:
  "inverses r r' \<Longrightarrow> renSig r' (renSig r s) = s"
  "inverses r r' \<Longrightarrow> renSig r (renSig r' s) = s"
  by (simp_all add: renSig_comp inverses_def renSig_id)

lemma renPkg_inv [simp]:
  "inverses r r' \<Longrightarrow> renPkg r' (renPkg r pk) = pk"
  "inverses r r' \<Longrightarrow> renPkg r (renPkg r' pk) = pk"
  by (simp_all add: renPkg_comp inverses_def renPkg_id)

lemma renSig_eq_iff: "inverses r r' \<Longrightarrow> (renSig r s = renSig r t) = (s = t)"
  by (auto dest: arg_cong [where f = "renSig r'"])

lemma renSig_inv_eq: "inverses r r' \<Longrightarrow> (renSig r' t = s) = (t = renSig r s)"
  by auto

lemma renPkg_inv_eq: "inverses r r' \<Longrightarrow> (renPkg r' x = pk) = (x = renPkg r pk)"
  by auto

lemma renSig_Nil_iff: "(renSig r s = NilSig) = (s = NilSig)"
  by (cases s) simp_all

lemma renFunc_sel [simp]:
  "fn_Pos (renFunc r fn) = fn_Pos fn"
  "fn_End (renFunc r fn) = fn_End fn"
  "Doc (renFunc r fn) = Doc fn"
  "Recv (renFunc r fn) = Recv fn"
  "Name (renFunc r fn) = map_option (renIdent r) (Name fn)"
  "Body (renFunc r fn) = map_option (map (renNode r)) (Body fn)"
  by (simp_all add: renFunc_def)

lemma extractSourceCode_ren [simp]:
  "extractSourceCode fs (renFunc r fn) = extractSourceCode fs fn"
  unfolding extractSourceCode_def renFunc_sel by (rule refl)

lemma renIdent_sel [simp]:
  "id_obj (renIdent r x) = map_option (renObject r) (id_obj x)"
  "id_Name (renIdent r x) = id_Name x"
  by (cases x; simp)+

lemma renObject_sel [simp]:
  "obj_Pkg (renObject r x) = obj_Pkg x"
  "obj_Type (renObject r x) = renType r (obj_Type x)"
  by (cases x; simp)+

lemma matchDecl_ren:
  assumes "inverses r r'"
  shows "matchDecl (renSig r s) (renDecl r n) = map_sum id (map_option (renFunc r)) (matchDecl s n)"
proof (cases n)
  case GenDecl
  then show ?thesis by (simp add: matchDecl_def)
next
  case (FuncDecl fn)
  show ?thesis
  proof (cases "Name fn")
    case None
    with FuncDecl show ?thesis by (simp add: matchDecl_def renFunc_def)
  next
    case (Some name)
    obtain nm ob where n: "name = Ident nm ob" by (cases name)
    show ?thesis
    proof (cases ob)
      case None
      with FuncDecl Some n show ?thesis by (simp add: matchDecl_def renFunc_def)
    next
      case (Some obj)
      obtain pk t where o: "obj = Object pk t" by (cases obj)
      show ?thesis
      proof (cases t)
        case OtherType
        with FuncDecl \<open>Name fn = Some name\<close> n Some o show ?thesis
          by (simp add: matchDecl_def renFunc_def)
      next
        case (Signature sig)
        with FuncDecl \<open>Name fn = Some name\<close> n Some o renSig_eq_iff [OF assms, of sig s]
        show ?thesis
          by (simp add: matchDecl_def renFunc_def)
      qed
    qed
  qed
qed

lemma callTarget_ren:
  "callTarget (renNode r n) = map_option (renSig r) (callTarget n)"
proof (cases n)
  case OtherNode
  then show ?thesis by (simp add: callTarget_def)
next
  case (CallExpr e)
  have a: "callTarget (CallExpr (IdentExpr (map_option (renIdent r) i)))
         = map_option (renSig r) (callTarget (CallExpr (IdentExpr i)))" for i
  proof (cases i)
    case None
    then show ?thesis by (simp add: callTarget_def)
  next
    case (Some x)
    then show ?thesis
      by (cases "id_obj x")
        (auto simp: callTarget_def split: option.splits gotype.splits)
  qed
  have b: "callTarget (CallExpr (SelectorExpr i)) = callTarget (CallExpr (IdentExpr i))" for i
    by (simp add: callTarget_def)
  from CallExpr show ?thesis
  proof (cases e)
    case (IdentExpr i)
    with CallExpr a show ?thesis by simp
  next
    case (SelectorExpr i)
    with CallExpr a [of i] b show ?thesis by simp
  next
    case OtherExpr
    with CallExpr show ?thesis by (simp add: callTarget_def)
  qed
qed

lemma renFileAndPkg_sel [simp]:
  "pkg (renFileAndPkg r f) = renPkg r (pkg f)"
  "file' (renFileAndPkg r f) = renFile r (file' f)"
  by (simp_all add: renFileAndPkg_def)

lemma addFunction_ren:
  assumes "inverses r r'"
  shows "addFunction (renFileAndPkg r f) (renSig r s) src (renParser r r' p)
       = renParser r r' (addFunction f s src p)"
  using assms renPkg_inv_eq [OF assms] renSig_inv_eq [OF assms]
  by (auto simp: addFunction_def renParser_def fun_eq_iff)

lemma walker_ren:
  assumes i: "inverses r r'"
  shows
  "processFunction fs (renSig r s) d (renParser r r' p)
     = map_sum id (renParser r r') (processFunction fs s d p)"
  "processFunctionInspect fs (renFileAndPkg r f) (renSig r s) d (map (renDecl r) ds) (renParser r r' p)
     = map_sum id (renParser r r') (processFunctionInspect fs f s d ds p)"
  "processUnderlyingFunctions fs (renPkg r pk) (renFunc r fn) d (renParser r r' p)
     = map_sum id (renParser r r') (processUnderlyingFunctions fs pk fn d p)"
  "processUnderlyingInspect fs (renPkg r pk) d (map (renNode r) ns) (renParser r r' p)
     = map_sum id (renParser r r') (processUnderlyingInspect fs pk d ns p)"
proof (induction fs s d p and fs f s d ds p and fs pk fn d p and fs pk d ns p rule: walker_induct)
  case (1 fs funcSig depth p)
  show ?case
  proof (cases "seen p funcSig")
    case True
    with i show ?thesis by (simp add: processFunction.simps renParser_def)
  next
    case False
    show ?thesis
    proof (cases "funcToFileAndPkg p funcSig")
      case None
      with False i show ?thesis
        by (simp add: processFunction.simps [of fs "renSig r funcSig"] processFunction.simps [of fs funcSig]
            renParser_def renIndex_def)
    next
      case (Some f)
      from 1 [OF False Some] False Some i show ?thesis
        by (simp add: processFunction.simps [of fs "renSig r funcSig"] processFunction.simps [of fs funcSig]
            renParser_def renIndex_def renFile_def)
    qed
  qed
next
  case (2 fs f funcSig depth p)
  then show ?case by simp
next
  case (3 fs f funcSig depth n ns p)
  note m = matchDecl_ren [OF i, of funcSig n]
  show ?case
  proof (cases "matchDecl funcSig n")
    case (Inl e)
    with m show ?thesis by simp
  next
    case (Inr b)
    show ?thesis
    proof (cases b)
      case None
      with 3(1) [OF Inr None] Inr m show ?thesis by simp
    next
      case (Some fn)
      show ?thesis
      proof (cases "extractSourceCode fs fn")
        case (Inl e)
        with Inr Some m show ?thesis by simp
      next
        case src: (Inr src)
        note u = 3(2) [OF Inr Some src]
        show ?thesis
        proof (cases "processUnderlyingFunctions fs (pkg f) fn (wrap64 (depth - 1)) (addFunction f funcSig src p)")
          case (Inl e)
          with Inr Some src m u show ?thesis by (simp add: addFunction_ren [OF i])
        next
          case q: (Inr q)
          from 3(3) [OF Inr Some src q] Inr Some src m u q show ?thesis
            by (simp add: addFunction_ren [OF i])
        qed
      qed
    qed
  qed
next
  case (4 fs pk fn depth p)
  show ?case
  proof (cases "depth \<le> 0")
    case True
    then show ?thesis by (simp add: processUnderlyingFunctions.simps)
  next
    case False
    show ?thesis
    proof (cases "Body fn")
      case None
      with False show ?thesis by (simp add: processUnderlyingFunctions.simps renFunc_def)
    next
      case (Some body)
      with 4 [OF False Some] False show ?thesis
        by (simp add: processUnderlyingFunctions.simps renFunc_def)
    qed
  qed
next
  case (5 fs pk depth p)
  then show ?case by simp
next
  case (6 fs pk depth n ns p)
  note c = callTarget_ren [of r n]
  show ?case
  proof (cases "callTarget n")
    case None
    with 6(1) c show ?thesis by simp
  next
    case (Some t)
    show ?thesis
    proof (cases "processFunction fs t depth p")
      case (Inl e)
      with 6(2) [OF Some] Some c show ?thesis by simp
    next
      case (Inr q)
      with 6(2) [OF Some] 6(3) [OF Some Inr] Some c show ?thesis by simp
    qed
  qed
qed

lemma renPkg_sel [simp]:
  "pkg_Name (renPkg r pk) = pkg_Name pk"
  "PkgPath (renPkg r pk) = PkgPath pk"
  "ID (renPkg r pk) = ID pk"
  "Syntax (renPkg r pk) = map (renFile r) (Syntax pk)"
  by (simp_all add: renPkg_def)

lemma renFile_sel [simp]: "Decls (renFile r fl) = map (renDecl r) (Decls fl)"
  by (simp add: renFile_def)

lemma toStringLoop_ren:
  assumes "inverses r r'"
  shows "toStringLoop (renParser r r' p) excludeRoot codeOnly k (map (renPkg r) rest) result
       = toStringLoop p excludeRoot codeOnly k rest result"
proof (induction rest arbitrary: k result)
  case Nil
  then show ?case by simp
next
  case (Cons pk rest)
  have l: "lookupText (functions' (renParser r r' p)) (renPkg r pk) = lookupText (functions' p) pk"
    using assms by (simp add: renParser_def lookupText_def)
  have n: "length (pkgOrder (renParser r r' p)) = length (pkgOrder p)"
    by (simp add: renParser_def)
  show ?case
  proof (cases "k = 0 \<and> excludeRoot")
    case True
    then show ?thesis using Cons [of "k + 1" result] by simp
  next
    case False
    then show ?thesis using l n by (auto simp: Let_def Cons)
  qed
qed

lemma toString_ren:
  "inverses r r' \<Longrightarrow> toString (renParser r r' p) excludeRoot codeOnly = toString p excludeRoot codeOnly"
  using toStringLoop_ren [of r r' p excludeRoot codeOnly 0 "pkgOrder p" "[]"]
  by (simp add: toString_def renParser_def)

lemma renIndex_upd:
  assumes "inverses r r'"
  shows "renIndex r r' (m(s \<mapsto> x)) = (renIndex r r' m)(renSig r s \<mapsto> renFileAndPkg r x)"
  using renSig_inv_eq [OF assms] by (auto simp: renIndex_def fun_eq_iff)

lemma renType_case:
  "obj_Type obj = Signature sig \<Longrightarrow> renType r (obj_Type obj) = Signature (renSig r sig)"
  "obj_Type obj = OtherType \<Longrightarrow> renType r (obj_Type obj) = OtherType"
  by simp_all

lemma initializeDecl_ren:
  assumes "inverses r r'"
  shows "initializeDecl paths name (renPkg r pk) (renFile r fl) (renDecl r n) (renInit r r' st)
       = map_sum id (renInit r r') (initializeDecl paths name pk fl n st)"
proof (cases n)
  case GenDecl
  then show ?thesis by (simp add: initializeDecl_def)
next
  case (FuncDecl fn)
  show ?thesis
  proof (cases "Name fn")
    case None
    with FuncDecl show ?thesis by (simp add: initializeDecl_def)
  next
    case (Some nm)
    show ?thesis
    proof (cases "id_obj nm")
      case None
      with FuncDecl Some show ?thesis by (simp add: initializeDecl_def)
    next
      case obj: (Some obj)
      show ?thesis
      proof (cases "obj_Type obj")
        case OtherType
        with FuncDecl Some obj show ?thesis by (simp add: initializeDecl_def)
      next
        case (Signature sig)
        show ?thesis
        proof (cases "sig = NilSig")
          case True
          with FuncDecl Some obj Signature show ?thesis by (simp add: initializeDecl_def)
        next
          case False
          then have "renSig r sig \<noteq> NilSig" by (simp add: renSig_Nil_iff)
          with False FuncDecl Some obj Signature show ?thesis
            by (cases paths)
              (simp_all add: initializeDecl_def renInit_def renIndex_upd [OF assms]
                renFileAndPkg_def)
        qed
      qed
    qed
  qed
qed

lemma initializeDecls_ren:
  assumes "inverses r r'"
  shows "initializeDecls paths name (renPkg r pk) (renFile r fl) (map (renDecl r) ns) (renInit r r' st)
       = map_sum id (renInit r r') (initializeDecls paths name pk fl ns st)"
proof (induction ns arbitrary: st)
  case Nil
  then show ?case by simp
next
  case (Cons n ns)
  then show ?case
    by (cases "initializeDecl paths name pk fl n st") (simp_all add: initializeDecl_ren [OF assms])
qed

lemma initializeFiles_ren:
  assumes "inverses r r'"
  shows "initializeFiles paths name (renPkg r pk) (map (renFile r) fls) (renInit r r' st)
       = map_sum id (renInit r r') (initializeFiles paths name pk fls st)"
proof (induction fls arbitrary: st)
  case Nil
  then show ?case by simp
next
  case (Cons fl fls)
  then show ?case
    by (cases "initializeDecls paths name pk fl (Decls fl) st")
      (simp_all add: initializeDecls_ren [OF assms])
qed

lemma initializePkgs_ren:
  assumes "inverses r r'"
  shows "initializePkgs paths name (map (renPkg r) pkgs) (renInit r r' st)
       = map_sum id (renInit r r') (initializePkgs paths name pkgs st)"
proof (induction pkgs arbitrary: st)
  case Nil
  then show ?case by simp
next
  case (Cons pk pkgs)
  show ?case
  proof (cases "isGoModPkg paths (PkgPath pk)")
    case False
    with Cons show ?thesis by simp
  next
    case True
    show ?thesis
    proof (cases "initializeFiles paths name pk (Syntax pk) st")
      case (Inl e)
      with True show ?thesis by (simp add: initializeFiles_ren [OF assms])
    next
      case (Inr st1)
      then have f: "initializeFiles paths name (renPkg r pk) (map (renFile r) (Syntax pk))
          (renInit r r' st) = Inr (renInit r r' st1)"
        by (simp add: initializeFiles_ren [OF assms])
      have g: "fst (renInit r r' st1) = NilSig \<longleftrightarrow> fst st1 = NilSig"
        by (simp add: renInit_def renSig_Nil_iff)
      from True Inr f g Cons [of st1] show ?thesis
        by (simp split: list.splits)
    qed
  qed
qed

lemma renWorld_sel [simp]:
  "getwd (renWorld r w) = getwd w"
  "chdir (renWorld r w) = chdir w"
  "gomod (renWorld r w) = gomod w"
  "files (renWorld r w) = files w"
  "load (renWorld r w) = map_option (map (renPkg r)) (load w)"
  by (simp_all add: renWorld_def)

lemma initialize_ren:
  assumes "inverses r r'"
  shows "initialize (renWorld r w) name = map_sum id (renInit r r') (initialize w name)"
proof -
  have a: "parseGoModFile (renWorld r w) = parseGoModFile w"
    by (simp add: parseGoModFile_def)
  have b: "loadPackages (renWorld r w) = map_sum id (map (renPkg r)) (loadPackages w)"
    by (cases "load w") (simp_all add: loadPackages_def)
  have c: "renInit r r' (NilSig, Map.empty) = (NilSig, Map.empty)"
    by (simp add: renInit_def renIndex_def)
  show ?thesis
  proof (cases "parseGoModFile w")
    case (Inl e)
    then show ?thesis by (simp add: initialize_def a)
  next
    case paths: (Inr paths)
    show ?thesis
    proof (cases "loadPackages w")
      case (Inl e)
      with paths show ?thesis by (simp add: initialize_def a b)
    next
      case (Inr pkgs)
      with paths initializePkgs_ren [OF assms, of paths name pkgs "(NilSig, Map.empty)"] c
      show ?thesis by (simp add: initialize_def a b)
    qed
  qed
qed

lemma newParser_ren: "newParser (renIndex r r' index) = renParser r r' (newParser index)"
  by (simp add: newParser_def renParser_def)

lemma traverse_ren:
  assumes "inverses r r'"
  shows "traverse (renWorld r w) name excludeRoot
       = map_sum id (renParser r r') (traverse w name excludeRoot)"
proof (cases "initialize w name")
  case (Inl e)
  then show ?thesis by (simp add: traverse_def initialize_ren [OF assms])
next
  case (Inr st)
  obtain s index where "st = (s, index)" by (cases st)
  with Inr walker_ren(1) [OF assms, of "files w" s "if excludeRoot then 6 else 5" "newParser index"]
  show ?thesis
    by (simp add: traverse_def initialize_ren [OF assms] renInit_def newParser_ren)
qed

section \<open>Properties of the document\<close>

lemma toStringLoop_blocks:
  "toStringLoop p excludeRoot codeOnly k rest result
     = result @ blocksFrom (int (length (pkgOrder p))) excludeRoot codeOnly
         (lookupText (functions' p)) k rest"
proof (induction rest arbitrary: k result)
  case Nil
  then show ?case by simp
next
  case (Cons pk rest)
  show ?case
  proof (cases "k = 0 \<and> excludeRoot")
    case True
    then show ?thesis using Cons [of "k + 1" result] by (simp add: block_def)
  next
    case False
    then show ?thesis by (auto simp: Cons block_def Let_def)
  qed
qed

lemma toString_blocks:
  "toString p excludeRoot codeOnly
     = blocksFrom (int (length (pkgOrder p))) excludeRoot codeOnly
         (lookupText (functions' p)) 0 (pkgOrder p)"
  by (simp add: toString_def toStringLoop_blocks)

lemma blocksFrom_cong:
  "(\<forall>pk \<in> set rest. txt pk = txt' pk) \<Longrightarrow>
   blocksFrom n excludeRoot codeOnly txt k rest = blocksFrom n excludeRoot codeOnly txt' k rest"
  by (induction rest arbitrary: k) simp_all

lemma blocksFrom_root:
  "blocksFrom n True codeOnly txt 0 (pk # rest) = blocksFrom n True codeOnly txt 1 rest"
  by (simp add: block_def)

lemma blocksFrom_emitted:
  assumes "\<forall>pk \<in> set (if excludeRoot then tl pkgs else pkgs). txt pk = txt' pk"
  shows "blocksFrom n excludeRoot codeOnly txt 0 pkgs = blocksFrom n excludeRoot codeOnly txt' 0 pkgs"
proof (cases excludeRoot)
  case False
  with assms show ?thesis by (simp add: blocksFrom_cong)
next
  case True
  show ?thesis
  proof (cases pkgs)
    case Nil
    then show ?thesis by simp
  next
    case (Cons root rest)
    with assms True have "\<forall>pk \<in> set rest. txt pk = txt' pk" by simp
    from blocksFrom_cong [OF this, of n True codeOnly 1] True show ?thesis
      by (simp add: Cons block_def)
  qed
qed

lemma blocksFrom_contains:
  "pk \<in> set rest \<Longrightarrow> 0 < k \<or> \<not> excludeRoot \<Longrightarrow>
   \<exists>pre post. blocksFrom n excludeRoot codeOnly txt k rest = pre @ txt pk @ post"
proof (induction rest arbitrary: k)
  case Nil
  then show ?case by simp
next
  case (Cons q rest)
  show ?case
  proof (cases "pk = q")
    case True
    have "\<exists>a b. formatFunctions (txt pk) codeOnly = a @ txt pk @ b"
    proof (cases codeOnly)
      case True
      then show ?thesis by (intro exI [of _ "[]"]) (simp add: formatFunctions_def)
    next
      case False
      then show ?thesis
        by (intro exI [of _ "[CHR 0x60, CHR 0x60, CHR 0x60]"]
              exI [of _ "[CHR 0x60, CHR 0x60, CHR 0x60]"]) (simp add: formatFunctions_def)
    qed
    then obtain a b where f: "formatFunctions (txt pk) codeOnly = a @ txt pk @ b" by blast
    from Cons.prems(2) obtain h t where
      "block n excludeRoot codeOnly k pk (txt pk) = h @ formatFunctions (txt pk) codeOnly @ t"
      by (auto simp: block_def)
    with f True show ?thesis
      by (intro exI [of _ "h @ a"]
            exI [of _ "b @ t @ blocksFrom n excludeRoot codeOnly txt (k + 1) rest"]) simp
  next
    case False
    with Cons.prems(1) have "pk \<in> set rest" by simp
    from Cons.IH [OF this, of "k + 1"] Cons.prems(2) obtain pre post where
      "blocksFrom n excludeRoot codeOnly txt (k + 1) rest = pre @ txt pk @ post" by auto
    then show ?thesis
      by (intro exI [of _ "block n excludeRoot codeOnly k q (txt q) @ pre"] exI [of _ post]) simp
  qed
qed

lemma concat_contains:
  "s \<in> set xs \<Longrightarrow> \<exists>pre post. concat (map f xs) = pre @ f s @ post"
proof -
  assume "s \<in> set xs"
  then obtain ys zs where "xs = ys @ s # zs" by (auto dest: split_list)
  then show ?thesis
    by (intro exI [of _ "concat (map f ys)"] exI [of _ "concat (map f zs)"]) simp
qed

lemma Parse_traverse:
  "traverse w funcName excludeRoot = Inr p \<Longrightarrow> getwd w = Some cur \<Longrightarrow> chdir w dir \<Longrightarrow>
   chdir w cur \<Longrightarrow> Parse w dir funcName excludeRoot codeOnly = Inr (toString p excludeRoot codeOnly)"
  by (simp add: Parse_def)

lemma walker_document:
  assumes r: "processFunction fs a d (newParser index) = Inr p"
    and u: "uniqueDecls index"
  shows "\<exists>vs. accounted fs p vs
     \<and> (\<forall>excludeRoot codeOnly. toString p excludeRoot codeOnly
          = document fs index (pkgOrder p) (filter (included p excludeRoot) vs) excludeRoot codeOnly)
     \<and> (\<forall>s excludeRoot codeOnly. included p excludeRoot s \<longrightarrow>
          (\<exists>pre post. toString p excludeRoot codeOnly = pre @ chunk fs index s @ post))"
proof -
  have "accounted fs (newParser index) []"
    by (simp add: accounted_def newParser_def seenSet_def lookupText_def)
  with walker_accounted(1) [of "newParser index" fs a d] u r
  obtain vs where v: "accounted fs p vs" by (fastforce simp: newParser_def)
  from walker_index(1) r have ip: "funcToFileAndPkg p = index"
    by (fastforce simp: newParser_def)
  from v ip have sv: "set vs = seenSet p"
    and tx: "\<And>pk. lookupText (functions' p) pk = pkgText fs index vs pk"
    by (simp_all add: accounted_def pkgText_def)
  have em: "pkgText fs index (filter (included p excludeRoot) vs) pk = pkgText fs index vs pk"
    if "pk \<in> set (emitted p excludeRoot)" for pk excludeRoot
  proof -
    have "filter (\<lambda>s. included p excludeRoot s \<and> pkgOf index s = Some pk) vs
        = filter (\<lambda>s. pkgOf index s = Some pk) vs"
    proof (rule filter_cong [OF refl])
      fix s assume "s \<in> set vs"
      with sv have "seen p s" by (simp add: seenSet_def)
      with that ip show "(included p excludeRoot s \<and> pkgOf index s = Some pk)
          = (pkgOf index s = Some pk)"
        by (auto simp: included_def pkgOf_def split: option.splits)
    qed
    then show ?thesis by (simp add: pkgText_def)
  qed
  have doc: "toString p excludeRoot codeOnly
      = document fs index (pkgOrder p) (filter (included p excludeRoot) vs) excludeRoot codeOnly"
    for excludeRoot codeOnly
  proof -
    have "\<forall>pk \<in> set (if excludeRoot then tl (pkgOrder p) else pkgOrder p).
        lookupText (functions' p) pk
          = pkgText fs index (filter (included p excludeRoot) vs) pk"
      using em [of _ excludeRoot] tx by (simp add: emitted_def)
    from blocksFrom_emitted [OF this] show ?thesis
      by (simp add: toString_blocks document_def)
  qed
  have con: "\<exists>pre post. toString p excludeRoot codeOnly = pre @ chunk fs index s @ post"
    if i: "included p excludeRoot s" for s excludeRoot codeOnly
  proof -
    from i ip obtain f where sn: "seen p s" and f: "index s = Some f"
      and e: "pkg f \<in> set (emitted p excludeRoot)"
      by (auto simp: included_def split: option.splits)
    from sn sv f have "s \<in> set (filter (\<lambda>s. pkgOf index s = Some (pkg f)) vs)"
      by (simp add: seenSet_def pkgOf_def)
    from concat_contains [OF this, of "chunk fs index"] tx [of "pkg f"]
    obtain a b where t: "lookupText (functions' p) (pkg f) = a @ chunk fs index s @ b"
      by (auto simp: pkgText_def)
    have "\<exists>pre post. toString p excludeRoot codeOnly
        = pre @ lookupText (functions' p) (pkg f) @ post"
    proof (cases excludeRoot)
      case False
      with e blocksFrom_contains [of "pkg f" "pkgOrder p" 0 excludeRoot] show ?thesis
        by (simp add: toString_blocks emitted_def)
    next
      case True
      with e obtain root rest where o: "pkgOrder p = root # rest" and "pkg f \<in> set rest"
        by (cases "pkgOrder p") (auto simp: emitted_def)
      with blocksFrom_contains [of "pkg f" rest 1 True "int (length (pkgOrder p))" codeOnly
          "lookupText (functions' p)"] True show ?thesis
        by (simp add: toString_blocks block_def)
    qed
    then obtain pre post where
      "toString p excludeRoot codeOnly = pre @ lookupText (functions' p) (pkg f) @ post"
      by blast
    with t show ?thesis
      by (intro exI [of _ "pre @ a"] exI [of _ "b @ post"]) simp
  qed
  from v doc con show ?thesis by blast
qed

lemma included_outside_root:
  assumes i: "initialize w funcName = Inr (e, index)"
    and r: "processFunction fs e d (newParser index) = Inr p"
  shows "included p True s = (seen p s \<and> pkgOf index s \<noteq> pkgOf index e)"
proof (cases "seen p s")
  case False
  then show ?thesis by (simp add: included_def)
next
  case True
  have o: "orderly p" using walker_orderly [OF r orderly_newParser] .
  have g: "registered p" using walker_registered [OF r registered_newParser] .
  from walker_index(1) r have ip: "funcToFileAndPkg p = index"
    by (fastforce simp: newParser_def)
  from True g ip obtain f where f: "index s = Some f" and t: "functions' p (pkg f) \<noteq> None"
    by (auto simp: registered_def split: option.splits)
  from t o have m: "pkg f \<in> set (pkgOrder p)" by (auto simp: orderly_def)
  have n: "e \<noteq> NilSig"
  proof
    assume "e = NilSig"
    with initialize_indexed [OF i] have "index e = None" by (cases "index e") auto
    with r \<open>e = NilSig\<close> have "p = newParser index"
      by (simp add: processFunction.simps newParser_def)
    with True show False by (simp add: newParser_def)
  qed
  from initialize_entry [OF i n] obtain fe where fe: "index e = Some fe"
    and me: "matching e (Decls (file' fe)) \<noteq> []" by blast
  from entry_first [OF r fe me] obtain rest where q: "pkgOrder p = pkg fe # rest" by blast
  with o have "pkg fe \<notin> set rest" by (simp add: orderly_def)
  with m q have "(pkg f \<in> set rest) = (pkg f \<noteq> pkg fe)" by auto
  with True f fe ip q show ?thesis by (simp add: included_def emitted_def pkgOf_def)
qed

lemma sourced_addFunction:
  assumes "sourced fs p" and "funcToFileAndPkg p s = Some f"
    and "fn \<in> set (matching s (Decls (file' f)))" and "extractSourceCode fs fn = Inr src"
  shows "sourced fs (addFunction f s src p)"
  unfolding sourced_def
proof (intro allI impI)
  fix t assume "seen (addFunction f s src p) t"
  then have "t = s \<or> seen p t" by (auto simp: addFunction_def split: if_splits)
  then show "\<exists>g fn src'. funcToFileAndPkg (addFunction f s src p) t = Some g
           \<and> fn \<in> set (matching t (Decls (file' g))) \<and> extractSourceCode fs fn = Inr src'"
  proof
    assume "t = s"
    with assms(2-4) show ?thesis by auto
  next
    assume "seen p t"
    with assms(1) show ?thesis by (simp add: sourced_def)
  qed
qed

lemma walker_sourced:
  "(\<forall>p'. sourced fs p \<longrightarrow> processFunction fs s d p = Inr p' \<longrightarrow> sourced fs p')"
  "(\<forall>p'. sourced fs p \<longrightarrow> funcToFileAndPkg p s = Some f \<longrightarrow>
      set ds \<subseteq> set (Decls (file' f)) \<longrightarrow>
      processFunctionInspect fs f s d ds p = Inr p' \<longrightarrow> sourced fs p')"
  "(\<forall>p'. sourced fs p \<longrightarrow> processUnderlyingFunctions fs pk fn d p = Inr p' \<longrightarrow> sourced fs p')"
  "(\<forall>p'. sourced fs p \<longrightarrow> processUnderlyingInspect fs pk d ns p = Inr p' \<longrightarrow> sourced fs p')"
proof (induction fs s d p and fs f s d ds p and fs pk fn d p and fs pk d ns p rule: walker_induct)
  case (1 fs funcSig depth p)
  show ?case
  proof (intro allI impI)
    fix p' assume a: "sourced fs p" and r: "processFunction fs funcSig depth p = Inr p'"
    from r show "sourced fs p'"
    proof (cases rule: processFunction_cases)
      case 1
      with a show ?thesis by simp
    next
      case 2
      with a show ?thesis by simp
    next
      case (3 f)
      from 1 [OF 3(1) 3(2), rule_format, OF a 3(2) _ 3(3)] show ?thesis by simp
    qed
  qed
next
  case (2 fs f funcSig depth p)
  then show ?case by simp
next
  case (3 fs f funcSig depth n ns p)
  show ?case
  proof (intro allI impI)
    fix p'
    assume a: "sourced fs p" and i: "funcToFileAndPkg p funcSig = Some f"
      and sub: "set (n # ns) \<subseteq> set (Decls (file' f))"
      and r: "processFunctionInspect fs f funcSig depth (n # ns) p = Inr p'"
    from sub have sub': "set ns \<subseteq> set (Decls (file' f))" by simp
    from r show "sourced fs p'"
    proof (cases rule: processFunctionInspect_cases)
      case 1
      from 3(1) [OF 1(1) refl, rule_format, OF a i sub' 1(2)] show ?thesis .
    next
      case (2 fn src q)
      from sub 2(1) have "fn \<in> set (matching funcSig (Decls (file' f)))"
        by (auto intro: matching_member)
      from sourced_addFunction [OF a i this 2(2)]
      have a1: "sourced fs (addFunction f funcSig src p)" .
      from 3(2) [OF 2(1) refl 2(2), rule_format, OF a1 2(3)] have a2: "sourced fs q" .
      from walker_index(3) 2(3) have iq: "funcToFileAndPkg q = funcToFileAndPkg p" by fastforce
      from 3(3) [OF 2(1) refl 2(2) 2(3), rule_format, OF a2 _ _ 2(4)] i iq sub'
      show ?thesis by simp
    qed
  qed
next
  case (4 fs pk fn depth p)
  show ?case
  proof (intro allI impI)
    fix p'
    assume a: "sourced fs p" and r: "processUnderlyingFunctions fs pk fn depth p = Inr p'"
    from r show "sourced fs p'"
    proof (cases rule: processUnderlyingFunctions_cases)
      case 1
      with a show ?thesis by simp
    next
      case 2
      with a show ?thesis by simp
    next
      case (3 body)
      from 4 [OF _ 3(2), rule_format, OF _ a 3(3)] 3(1) show ?thesis by simp
    qed
  qed
next
  case (5 fs pk depth p)
  then show ?case by simp
next
  case (6 fs pk depth n ns p)
  show ?case
  proof (intro allI impI)
    fix p'
    assume a: "sourced fs p" and r: "processUnderlyingInspect fs pk depth (n # ns) p = Inr p'"
    from r show "sourced fs p'"
    proof (cases rule: processUnderlyingInspect_cases)
      case 1
      from 6(1) [OF 1(1), rule_format, OF a 1(2)] show ?thesis .
    next
      case (2 t q)
      from 6(2) [OF 2(1), rule_format, OF a 2(2)] have "sourced fs q" .
      from 6(3) [OF 2(1) 2(2), rule_format, OF this 2(3)] show ?thesis .
    qed
  qed
qed

lemma visited_chunk:
  assumes r: "processFunction fs a d (newParser index) = Inr p"
    and u: "uniqueDecls index"
    and s: "seen p s"
  shows "\<exists>f fn src. index s = Some f \<and> matching s (Decls (file' f)) = [fn]
      \<and> extractSourceCode fs fn = Inr src \<and> chunk fs index s = [newline] @ src"
proof -
  have "sourced fs (newParser index)" by (simp add: sourced_def newParser_def)
  with walker_sourced(1) r have "sourced fs p" by blast
  moreover from walker_index(1) r have "funcToFileAndPkg p = index"
    by (fastforce simp: newParser_def)
  ultimately obtain f fn src where f: "index s = Some f"
    and m: "fn \<in> set (matching s (Decls (file' f)))" and e: "extractSourceCode fs fn = Inr src"
    using s by (auto simp: sourced_def)
  from u f have "length (matching s (Decls (file' f))) \<le> 1" by (simp add: uniqueDecls_def)
  with m have "matching s (Decls (file' f)) = [fn]"
    by (cases "matching s (Decls (file' f))") auto
  with f e show ?thesis by (simp add: chunk_def)
qed

lemma included_source:
  assumes r: "processFunction fs a d (newParser index) = Inr p"
    and u: "uniqueDecls index"
    and i: "included p excludeRoot s"
  shows "\<exists>f fn src pre post. index s = Some f \<and> matching s (Decls (file' f)) = [fn]
      \<and> extractSourceCode fs fn = Inr src
      \<and> toString p excludeRoot codeOnly = pre @ [newline] @ src @ post"
proof -
  from i have "seen p s" by (simp add: included_def)
  from visited_chunk [OF r u this] obtain f fn src where "index s = Some f"
    and "matching s (Decls (file' f)) = [fn]" and "extractSourceCode fs fn = Inr src"
    and c: "chunk fs index s = [newline] @ src" by blast
  moreover from walker_document [OF r u] i obtain pre post where
    "toString p excludeRoot codeOnly = pre @ chunk fs index s @ post" by blast
  ultimately show ?thesis by (simp add: c) blast
qed

lemma dep_unique:
  "uniqueDecls
     [SigAt 0 \<mapsto> \<lparr> file' = \<lparr> Decls = [exFunc ''m.go'' ''E'' 0 1 [1]] \<rparr>, pkg = depRoot \<rparr>,
      SigAt 1 \<mapsto> \<lparr> file' = \<lparr> Decls = [exFunc ''d.go'' ''A'' 1 1 []] \<rparr>, pkg = depLib \<rparr>]"
  by (auto simp: uniqueDecls_def exFunc_def exIdent_def matchDecl_def split: if_splits)

section \<open>Claims about the Symbol Index\<close>

text \<open>
  Claim C4, as amended.  The index holds a declaration only under a signature that is
  not nil, and only from a loaded package whose import path equals, or extends by a slash
  and more, one of the paths that \<open>parseGoModFile\<close> collects from \<open>go.mod\<close>: the
  module path and also the path of every required module.  A package that matches none of
  these paths is never indexed, and a call to a signature that is not in the index leaves
  the state of the traversal as it is.
\<close>

theorem index_membership:
  assumes "parseGoModFile w = Inr goModPaths"
    and "loadPackages w = Inr pkgs"
    and "initialize w funcName = Inr (funcSig, index)"
  shows "(\<forall>s f. index s = Some f \<longrightarrow> indexedFrom goModPaths pkgs s f)
     \<and> (\<forall>s f pk. index s = Some f \<and> \<not> isGoModPkg goModPaths (PkgPath pk) \<longrightarrow> pkg f \<noteq> pk)
     \<and> (\<forall>s fs depth p. funcToFileAndPkg p = index \<and> index s = None \<longrightarrow>
           processFunction fs s depth p = Inr p)"
proof -
  have i: "initializePkgs goModPaths funcName pkgs (NilSig, Map.empty) = Inr (funcSig, index)"
    using assms by (simp add: initialize_def)
  have a: "indexedFrom goModPaths pkgs s f" if "index s = Some f" for s f
    using initializePkgs_snd [OF i, of s f] that by simp
  then have "pkg f \<noteq> pk" if "index s = Some f \<and> \<not> isGoModPkg goModPaths (PkgPath pk)" for s f pk
    using that by (auto simp: indexedFrom_def)
  then show ?thesis using a by (auto simp del: processFunction.simps simp: processFunction_leaf)
qed

theorem index_membership_witness:
  "indexedFrom [''m'', ''d''] [depRoot, depLib] (SigAt 1)
      \<lparr> file' = \<lparr> Decls = [exFunc ''d.go'' ''A'' 1 1 []] \<rparr>, pkg = depLib \<rparr>
   \<and> processFunction Map.empty (SigAt 7) 5
        (newParser [SigAt 0 \<mapsto> \<lparr> file' = \<lparr> Decls = [exFunc ''m.go'' ''E'' 0 1 [1]] \<rparr>, pkg = depRoot \<rparr>,
      SigAt 1 \<mapsto> \<lparr> file' = \<lparr> Decls = [exFunc ''d.go'' ''A'' 1 1 []] \<rparr>, pkg = depLib \<rparr>])
      = Inr (newParser [SigAt 0 \<mapsto> \<lparr> file' = \<lparr> Decls = [exFunc ''m.go'' ''E'' 0 1 [1]] \<rparr>, pkg = depRoot \<rparr>,
      SigAt 1 \<mapsto> \<lparr> file' = \<lparr> Decls = [exFunc ''d.go'' ''A'' 1 1 []] \<rparr>, pkg = depLib \<rparr>])"
  using index_membership [OF depWorld_paths depWorld_pkgs depWorld_init]
  by (simp add: newParser_def)

text \<open>
  Claim C4 as stated fails: in the module \<open>m\<close> that requires \<open>d\<close>, the function \<open>A\<close>
  of the loaded package \<open>d\<close> is indexed, and \<open>d\<close> is neither \<open>m\<close> nor a sub-package
  of \<open>m\<close>.
\<close>

theorem third_party_indexed_counterexample:
  "\<not> isl (initialize depWorld ''E'')
   \<and> snd (projr (initialize depWorld ''E'')) (SigAt 1)
       = Some \<lparr> file' = \<lparr> Decls = [exFunc ''d.go'' ''A'' 1 1 []] \<rparr>, pkg = depLib \<rparr>
   \<and> loadPackages depWorld = Inr [depRoot, depLib]
   \<and> PkgPath depLib = ''d''
   \<and> \<not> inModule ''m'' (PkgPath depLib)"
  by (simp add: depWorld_init depWorld_pkgs inModule_def depLib_def exPkg_def HasPrefix_def)

text \<open>
  Claim C7.  The comment of \<open>Parse\<close> promises that the function panics if the
  provided function is not found in the package path; the code does not keep this
  promise.  \<open>initialize\<close> compares the path of a package with \<open>goModPaths[0]\<close>, the
  first word that \<open>parseGoModFile\<close> keeps of \<open>go.mod\<close>, which is the module path only
  when the \<open>module\<close> line comes first (\<open>initialize_not_found\<close> above is that case).
  The \<open>go.mod\<close> of the module below starts with a comment line: \<open>goModPaths[0]\<close> is
  \<open>//\<close>, the root package \<open>m\<close> is scanned (its function \<open>E\<close> is in the index) and
  declares no function \<open>nosuch\<close>, and \<open>initialize\<close> returns the nil signature without
  a panic; \<open>Parse\<close> returns the empty document, for the name \<open>nosuch\<close> and also for
  the name \<open>E\<close> of the function that the root package declares.
\<close>

theorem missing_entry_point_silent:
  "parseGoModFile commentWorld = Inr [''//'', ''m'']
   \<and> loadPackages commentWorld = Inr [commentRoot]
   \<and> PkgPath commentRoot = ''m''
   \<and> isGoModPkg [''//'', ''m''] (PkgPath commentRoot)
   \<and> \<not> declaresName ''nosuch'' commentRoot
   \<and> map_sum id fst (initialize commentWorld ''nosuch'') = Inr NilSig
   \<and> map_option pkg (snd (projr (initialize commentWorld ''nosuch'')) (SigAt 0))
       = Some commentRoot
   \<and> Parse commentWorld ''.'' ''nosuch'' False True = Inr []
   \<and> Parse commentWorld ''.'' ''nosuch'' True False = Inr []
   \<and> Parse commentWorld ''.'' ''E'' False True = Inr []"
  by code_simp

text \<open>
  Claim C10.  When \<open>initialize\<close> returns, the entry signature is the signature of the
  last declaration, in scan order, of the requested name in a package with the path
  \<open>goModPaths[0]\<close> (nil when there is none); \<open>entryCandidates\<close> counts functions and
  methods alike.
\<close>

theorem entry_point_selection:
  assumes "parseGoModFile w = Inr goModPaths"
    and "loadPackages w = Inr pkgs"
    and "initialize w funcName = Inr (funcSig, index)"
  shows "funcSig = lastOr NilSig (entryCandidates goModPaths funcName pkgs)"
  using assms initializePkgs_fst [of goModPaths funcName pkgs "(NilSig, Map.empty)" "(funcSig, index)"]
  by (simp add: initialize_def)

theorem entry_point_selection_witness:
  "(\<exists>index. initialize selWorld ''Run'' = Inr (SigAt 1, index))
   \<and> entryCandidates [''m''] ''Run'' [selRoot] = [SigAt 0, SigAt 1]"
proof -
  have a: "parseGoModFile selWorld = Inr [''m'']"
    by code_simp
  have b: "loadPackages selWorld = Inr [selRoot]"
    by (simp add: loadPackages_def selWorld_def exWorld_def)
  have c: "entryCandidates [''m''] ''Run'' [selRoot] = [SigAt 0, SigAt 1]"
    by (simp add: entryCandidates_def pkgEntries_def declEntry_def selRoot_def exPkg_def
        exFunc_def exMethod_def exIdent_def)
  have "\<exists>funcSig index. initialize selWorld ''Run'' = Inr (funcSig, index)"
    by (simp add: initialize_def a b initializeDecl_def selRoot_def exPkg_def exFunc_def
        exMethod_def exIdent_def)
  then obtain funcSig index where d: "initialize selWorld ''Run'' = Inr (funcSig, index)"
    by blast
  from entry_point_selection [OF a b d] c d show ?thesis by (simp add: lastOr_def)
qed

section \<open>Claims about the Result Assembler\<close>



section \<open>Claims about the Source Slicer\<close>

text \<open>
  Claim C8, as amended.  The slicer works on whole lines.  When the file can be read and
  the line numbers of the comments and of the function lie within it, the result is, for
  every comment of the documentation block that is not nil, in order, the lines from the
  comment's first line to its last, and then the lines from the line of the function's
  start to the line of its end, each line followed by a newline.  When the comments occupy
  consecutive ranges of lines that end on the line before the function, this is the block
  of lines from the first comment line to the last line of the function.  The lines are
  the pieces of the file between its newlines, unchanged.
\<close>

theorem slicer_whole_lines:
  assumes "fs (Filename (fn_Pos fn)) = Some content"
    and "lines = splitOn newline content"
    and "commentsInRange lines (docComments fn)"
    and "linesInRange lines (Line (fn_Pos fn)) (Line (fn_End fn))"
  shows "extractSourceCode fs fn =
           Inr (commentBlocks lines (docComments fn)
                @ lineBlock lines (Line (fn_Pos fn)) (Line (fn_End fn)))
     \<and> (\<forall>a. 1 \<le> a \<and> chained (docComments fn) a (Line (fn_Pos fn))
              \<and> Line (fn_Pos fn) \<le> Line (fn_End fn) \<longrightarrow>
            extractSourceCode fs fn = Inr (lineBlock lines a (Line (fn_End fn))))
     \<and> concat (map (\<lambda>l. l @ [newline]) lines) = content @ [newline]"
proof -
  have w: "writeLines lines (Line (fn_Pos fn) - 1) (Line (fn_End fn) - 1) sb
             = Inr (sb @ lineBlock lines (Line (fn_Pos fn)) (Line (fn_End fn)))" for sb
    using writeLines_block [of "Line (fn_Pos fn) - 1" "Line (fn_End fn) - 1" lines sb] assms(4)
    by (simp add: linesInRange_def)
  have c: "(case Doc fn of None \<Rightarrow> Inr [] | Some cs \<Rightarrow> writeComments lines cs [])
             = Inr (commentBlocks lines (docComments fn))"
    using writeComments_blocks [OF assms(3), of "[]"]
    by (simp add: docComments_def commentBlocks_def split: option.splits)
  have e: "extractSourceCode fs fn =
           Inr (commentBlocks lines (docComments fn)
                @ lineBlock lines (Line (fn_Pos fn)) (Line (fn_End fn)))"
    using assms(1) c w by (simp add: extractSourceCode_def assms(2) [symmetric])
  have "extractSourceCode fs fn = Inr (lineBlock lines a (Line (fn_End fn)))"
    if h: "1 \<le> a \<and> chained (docComments fn) a (Line (fn_Pos fn))
              \<and> Line (fn_Pos fn) \<le> Line (fn_End fn)" for a
  proof -
    from h chained_blocks [of a "docComments fn" "Line (fn_Pos fn)" lines]
    have b: "commentBlocks lines (docComments fn) = lineBlock lines a (Line (fn_Pos fn) - 1)"
      and l: "a \<le> Line (fn_Pos fn)" by simp_all
    from lineBlock_append [of a "Line (fn_Pos fn) - 1" "Line (fn_End fn)" lines] h l
    show ?thesis by (simp add: e b)
  qed
  moreover have "concat (map (\<lambda>l. l @ [newline]) lines) = content @ [newline]"
    by (simp add: assms(2) splitOn_def splitFrom_join)
  ultimately show ?thesis using e by blast
qed

theorem slicer_whole_lines_witness:
  "extractSourceCode [''f.go'' \<mapsto> docContent] docFn
     = Inr (''// a'' @ [newline] @ ''// b'' @ [newline] @ ''func f() {'' @ [newline]
            @ ''}'' @ [newline])"
proof -
  have l: "splitOn newline docContent = [''p'', ''// a'', ''// b'', ''func f() {'', ''}'']"
    by (simp add: docContent_def splitOn_def newline_def)
  have a: "[''f.go'' \<mapsto> docContent] (Filename (fn_Pos docFn)) = Some docContent"
    by (simp add: docFn_def)
  have b: "commentsInRange [''p'', ''// a'', ''// b'', ''func f() {'', ''}''] (docComments docFn)"
    by (simp add: commentsInRange_def linesInRange_def docComments_def docFn_def)
  have c: "linesInRange [''p'', ''// a'', ''// b'', ''func f() {'', ''}'']
             (Line (fn_Pos docFn)) (Line (fn_End docFn))"
    by (simp add: linesInRange_def docFn_def)
  have d: "1 \<le> (2::int) \<and> chained (docComments docFn) 2 (Line (fn_Pos docFn))
             \<and> Line (fn_Pos docFn) \<le> Line (fn_End docFn)"
    by (simp add: docComments_def docFn_def)
  have e: "lineBlock [''p'', ''// a'', ''// b'', ''func f() {'', ''}''] 2 (Line (fn_End docFn))
             = ''// a'' @ [newline] @ ''// b'' @ [newline] @ ''func f() {'' @ [newline]
               @ ''}'' @ [newline]"
    by (simp add: lineBlock_def docFn_def)
  from slicer_whole_lines [where fs = "[''f.go'' \<mapsto> docContent]" and fn = docFn
      and content = docContent, OF a l [symmetric] b c] d
  have "extractSourceCode [''f.go'' \<mapsto> docContent] docFn
          = Inr (lineBlock [''p'', ''// a'', ''// b'', ''func f() {'', ''}''] 2 (Line (fn_End docFn)))"
    by blast
  with e show ?thesis by simp
qed

text \<open>
  Claim C8 as stated fails: for a function that starts in the middle of a line, the
  slicer returns the whole line (and a newline), not the text of the function.
\<close>

theorem exact_span_counterexample:
  "specSlice sliceFs sliceFn = Some ''func f() {}''
   \<and> extractSourceCode sliceFs sliceFn = Inr (''var x = 1; func f() {}'' @ [newline])
   \<and> extractSourceCode sliceFs sliceFn \<noteq> Inr ''func f() {}''"
  by (simp add: specSlice_def spanText_def sliceFs_def sliceFn_def docComments_def
      List.map_filter_simps extractSourceCode_def splitOn_def newline_def)

section \<open>Claims about the Call Graph Walker\<close>




text \<open>
  Claim C3, as amended.  \<open>processFunction\<close> has no parameter for \<open>excludeRoot\<close>;
  \<open>Parse\<close> only starts it with the depth 6 instead of 5.  For either value, when
  \<open>initialize\<close> finds an entry point and the traversal returns, the package of the
  entry point is the first of the package order, and its accumulated text starts with a
  newline and the source of the entry point.  With \<open>excludeRoot\<close> the document does not
  depend on that text: whatever the text of the first package is, the document is the
  same.
\<close>

theorem root_text_omitted:
  assumes "initialize w funcName = Inr (funcSig, index)"
    and "funcSig \<noteq> NilSig"
    and "traverse w funcName excludeRoot = Inr p"
  shows "\<exists>f src rest t.
           index funcSig = Some f
         \<and> matching funcSig (Decls (file' f)) \<noteq> []
         \<and> extractSourceCode (files w) (hd (matching funcSig (Decls (file' f)))) = Inr src
         \<and> pkgOrder p = pkg f # rest
         \<and> functions' p (pkg f) = Some ([newline] @ src @ t)
         \<and> (\<forall>txt codeOnly.
               toString (p\<lparr>functions' := (functions' p)(pkg f := txt)\<rparr>) True codeOnly
               = toString p True codeOnly)"
proof -
  let ?p0 = "newParser index"
  let ?d = "if excludeRoot then 6 else 5 :: int"
  from assms(1,3) have r: "processFunction (files w) funcSig ?d ?p0 = Inr p"
    by (simp add: traverse_def)
  from initialize_entry [OF assms(1,2)] obtain f where f: "index funcSig = Some f"
    and m: "matching funcSig (Decls (file' f)) \<noteq> []" by blast
  have i: "funcToFileAndPkg ?p0 funcSig = Some f" by (simp add: newParser_def f)
  have ns: "\<not> seen ?p0 funcSig" by (simp add: newParser_def)
  from r have "processFunctionInspect (files w) f funcSig ?d (Decls (file' f)) ?p0 = Inr p"
    by (cases rule: processFunction_cases) (use i ns in auto)
  from inspect_first_match [OF i this m] obtain src where
    e: "extractSourceCode (files w) (hd (matching funcSig (Decls (file' f)))) = Inr src"
    and g: "grows (addFunction f funcSig src ?p0) p" by blast
  from g obtain rest where o: "pkgOrder p = pkg f # rest"
    by (auto simp: grows_def addFunction_def newParser_def)
  from grows_text [OF g] obtain t where
    "lookupText (functions' p) (pkg f) = [newline] @ src @ t"
    by (auto simp: newParser_def lookupText_def)
  moreover from g have "functions' p (pkg f) \<noteq> None"
    by (auto simp: grows_def addFunction_def)
  ultimately have x: "functions' p (pkg f) = Some ([newline] @ src @ t)"
    by (auto simp: lookupText_def)
  have "orderly p" using walker_orderly [OF r orderly_newParser] .
  from toString_root_omitted [OF this o]
  have "\<forall>txt codeOnly.
               toString (p\<lparr>functions' := (functions' p)(pkg f := txt)\<rparr>) True codeOnly
               = toString p True codeOnly" by blast
  with f m e o x show ?thesis by blast
qed

theorem root_text_omitted_witness:
  "\<exists>rest t. pkgOrder (projr (traverse depWorld ''E'' True)) = depRoot # rest
      \<and> functions' (projr (traverse depWorld ''E'' True)) depRoot = Some ([newline] @ ''E'' @ [newline] @ t)"
proof -
  have "\<not> isl (traverse depWorld ''E'' True)" by code_simp
  then have t: "traverse depWorld ''E'' True = Inr (projr (traverse depWorld ''E'' True))"
    by simp
  have n: "SigAt 0 \<noteq> NilSig" by simp
  have e: "extractSourceCode (files depWorld) (hd (matching (SigAt 0) [exFunc ''m.go'' ''E'' 0 1 [1]]))
      = Inr (''E'' @ [newline])"
    by code_simp
  from root_text_omitted [OF depWorld_init n t] e show ?thesis
    by auto
qed

text \<open>
  Claim C3 as stated fails: after the traversal with \<open>excludeRoot\<close>, the text of the
  first package is the source of the entry point \<open>E\<close>; the function it calls is in the
  text of the second package.
\<close>

theorem entry_in_accumulator_counterexample:
  "\<not> isl (traverse depWorld ''E'' True)
   \<and> pkgOrder (projr (traverse depWorld ''E'' True)) = [depRoot, depLib]
   \<and> functions' (projr (traverse depWorld ''E'' True)) depRoot
       = Some ([newline] @ ''E'' @ [newline])
   \<and> toString (projr (traverse depWorld ''E'' True)) True True = [newline] @ ''A'' @ [newline]"
  by code_simp

text \<open>
  Claim C6, as amended.  For every module in which \<open>initialize\<close> finds the index, a
  signature has at most one declaration and no extraction fails, whatever the calls are
  (recursion included), the traversal of \<open>Parse\<close> returns a state, and so does the
  traversal from any function with any depth.  A list \<open>vs\<close> of distinct signatures
  lists the visited functions; the text of every package is what the functions of \<open>vs\<close>
  in that package append, a newline and the source for each, so the source of a visited
  function is in the accumulated text once.  The document is the one of the included
  functions of \<open>vs\<close>, and the source of each of them is a part of it.  Without
  \<open>excludeRoot\<close> every visited function is included; with \<open>excludeRoot\<close> the
  included functions are the visited ones outside the package of the entry point.  The
  entry point is visited, and so is each declared function that it calls.
\<close>

theorem cycles_once:
  assumes "initialize w funcName = Inr (a, index)"
    and "uniqueDecls index"
    and "healthy (files w) index"
  shows "\<exists>p vs. traverse w funcName excludeRoot = Inr p
      \<and> (\<forall>s d. \<exists>q. processFunction (files w) s d (newParser index) = Inr q)
      \<and> distinct vs \<and> set vs = seenSet p
      \<and> (\<forall>pk. lookupText (functions' p) pk = pkgText (files w) index vs pk)
      \<and> (\<forall>s \<in> set vs. \<exists>f fn src. index s = Some f \<and> matching s (Decls (file' f)) = [fn]
            \<and> extractSourceCode (files w) fn = Inr src
            \<and> chunk (files w) index s = [newline] @ src)
      \<and> (\<forall>codeOnly. toString p excludeRoot codeOnly
            = document (files w) index (pkgOrder p) (filter (included p excludeRoot) vs)
                excludeRoot codeOnly)
      \<and> (\<forall>s codeOnly. included p excludeRoot s \<longrightarrow>
            (\<exists>f fn src pre post. index s = Some f \<and> matching s (Decls (file' f)) = [fn]
               \<and> extractSourceCode (files w) fn = Inr src
               \<and> toString p excludeRoot codeOnly = pre @ [newline] @ src @ post))
      \<and> (\<forall>s. included p excludeRoot s
            = (seen p s \<and> (excludeRoot \<longrightarrow> pkgOf index s \<noteq> pkgOf index a)))
      \<and> (a \<noteq> NilSig \<longrightarrow>
            a \<in> set vs \<and> (\<forall>b \<in> set (callees index a). declared index b \<longrightarrow> b \<in> set vs))
      \<and> (\<forall>dir cur codeOnly. getwd w = Some cur \<and> chdir w dir \<and> chdir w cur \<longrightarrow>
            Parse w dir funcName excludeRoot codeOnly = Inr (toString p excludeRoot codeOnly))"
proof -
  let ?d = "if excludeRoot then 6 else 5 :: int"
  let ?fs = "files w"
  from walker_total(1) [of ?fs "newParser index" a ?d] assms(3)
  obtain p where r: "processFunction ?fs a ?d (newParser index) = Inr p"
    by (auto simp: newParser_def)
  with assms(1) have t: "traverse w funcName excludeRoot = Inr p"
    by (simp add: traverse_def)
  from walker_document [OF r assms(2)] obtain vs where v: "accounted ?fs p vs"
    and doc: "\<forall>excludeRoot codeOnly. toString p excludeRoot codeOnly
          = document ?fs index (pkgOrder p) (filter (included p excludeRoot) vs)
              excludeRoot codeOnly"
    by blast
  have con: "\<forall>s codeOnly. included p excludeRoot s \<longrightarrow>
            (\<exists>f fn src pre post. index s = Some f \<and> matching s (Decls (file' f)) = [fn]
               \<and> extractSourceCode ?fs fn = Inr src
               \<and> toString p excludeRoot codeOnly = pre @ [newline] @ src @ post)"
    using included_source [OF r assms(2)] by blast
  from walker_index(1) r have ip: "funcToFileAndPkg p = index"
    by (fastforce simp: newParser_def)
  from v ip have dv: "distinct vs" and sv: "set vs = seenSet p"
    and tx: "\<forall>pk. lookupText (functions' p) pk = pkgText ?fs index vs pk"
    by (simp_all add: accounted_def pkgText_def)
  have o: "orderly p" using walker_orderly [OF r orderly_newParser] .
  have g: "registered p" using walker_registered [OF r registered_newParser] .
  have ch: "\<forall>s \<in> set vs. \<exists>f fn src. index s = Some f \<and> matching s (Decls (file' f)) = [fn]
            \<and> extractSourceCode ?fs fn = Inr src \<and> chunk ?fs index s = [newline] @ src"
  proof
    fix s assume "s \<in> set vs"
    with sv have "seen p s" by (simp add: seenSet_def)
    from visited_chunk [OF r assms(2) this]
    show "\<exists>f fn src. index s = Some f \<and> matching s (Decls (file' f)) = [fn]
            \<and> extractSourceCode ?fs fn = Inr src \<and> chunk ?fs index s = [newline] @ src" .
  qed
  have inc: "\<forall>s. included p excludeRoot s
            = (seen p s \<and> (excludeRoot \<longrightarrow> pkgOf index s \<noteq> pkgOf index a))"
  proof (cases excludeRoot)
    case True
    with included_outside_root [OF assms(1) r] show ?thesis by simp
  next
    case False
    with included_all [OF g o] show ?thesis by simp
  qed
  have ent: "a \<in> set vs \<and> (\<forall>b \<in> set (callees index a). declared index b \<longrightarrow> b \<in> set vs)"
    if n: "a \<noteq> NilSig"
  proof
    from initialize_entry [OF assms(1) n] obtain f where "index a = Some f"
      and "matching a (Decls (file' f)) \<noteq> []" by blast
    with processFunction_includes [OF r, of f] have "seen p a" by (simp add: newParser_def)
    with sv show "a \<in> set vs" by (simp add: seenSet_def)
    have w: "0 < wrap64 (?d - 1)" by (simp add: wrap64_def)
    show "\<forall>b \<in> set (callees index a). declared index b \<longrightarrow> b \<in> set vs"
    proof (intro ballI impI)
      fix b assume "b \<in> set (callees index a)" and "declared index b"
      with processFunction_includes_callees [OF r _ w, of b] have "seen p b"
        by (simp add: newParser_def)
      with sv show "b \<in> set vs" by (simp add: seenSet_def)
    qed
  qed
  have par: "\<forall>dir cur codeOnly. getwd w = Some cur \<and> chdir w dir \<and> chdir w cur \<longrightarrow>
            Parse w dir funcName excludeRoot codeOnly = Inr (toString p excludeRoot codeOnly)"
    using Parse_traverse [OF t] by blast
  have tot: "\<forall>s d. \<exists>q. processFunction ?fs s d (newParser index) = Inr q"
    using walker_total(1) [of ?fs "newParser index"] assms(3) by (simp add: newParser_def)
  from t tot dv sv tx ch doc con inc ent par show ?thesis by blast
qed

theorem cycles_once_witness:
  "\<exists>p vs. traverse cycWorld ''A'' False = Inr p
      \<and> distinct vs \<and> set vs = seenSet p \<and> SigAt 0 \<in> set vs \<and> SigAt 1 \<in> set vs
      \<and> toString p False True
          = document (files cycWorld) cycIndex (pkgOrder p) (filter (included p False) vs)
              False True
      \<and> Parse cycWorld ''.'' ''A'' False True = Inr (toString p False True)
      \<and> Parse cycWorld ''.'' ''A'' False True =
            Inr ([newline] @ ''A'' @ [newline, newline] @ ''B'' @ [newline])
      \<and> SigAt 0 \<in> set (callees cycIndex (SigAt 0))
      \<and> SigAt 0 \<in> set (callees cycIndex (SigAt 1))"
proof -
  have b: "declared cycIndex (SigAt 1)"
    by (simp add: declared_def cycIndex_def cycRoot_def exPkg_def exFunc_def exIdent_def
        matchDecl_def)
  have c: "SigAt 1 \<in> set (callees cycIndex (SigAt 0))
      \<and> SigAt 0 \<in> set (callees cycIndex (SigAt 0))
      \<and> SigAt 0 \<in> set (callees cycIndex (SigAt 1))"
    by (simp add: callees_def cycIndex_def cycRoot_def exPkg_def exFunc_def exIdent_def
        matchDecl_def bodyTargets_def exCall_def callTarget_def List.map_filter_simps)
  have e: "getwd cycWorld = Some ''/'' \<and> chdir cycWorld ''.'' \<and> chdir cycWorld ''/''"
    by (simp add: cycWorld_def exWorld_def)
  from cycles_once [OF cyc_init cyc_unique cyc_healthy, of False] obtain p vs where
    t: "traverse cycWorld ''A'' False = Inr p" and d: "distinct vs" and s: "set vs = seenSet p"
    and doc: "\<forall>codeOnly. toString p False codeOnly
            = document (files cycWorld) cycIndex (pkgOrder p) (filter (included p False) vs)
                False codeOnly"
    and ent: "SigAt 0 \<noteq> NilSig \<longrightarrow> SigAt 0 \<in> set vs
         \<and> (\<forall>b \<in> set (callees cycIndex (SigAt 0)). declared cycIndex b \<longrightarrow> b \<in> set vs)"
    and par: "\<forall>dir cur codeOnly. getwd cycWorld = Some cur \<and> chdir cycWorld dir
         \<and> chdir cycWorld cur \<longrightarrow>
            Parse cycWorld dir ''A'' False codeOnly = Inr (toString p False codeOnly)"
    by blast
  from ent b c have m: "SigAt 0 \<in> set vs \<and> SigAt 1 \<in> set vs" by blast
  from par e have "Parse cycWorld ''.'' ''A'' False True = Inr (toString p False True)"
    by blast
  with t d s m doc c cyc_out show ?thesis by blast
qed

text \<open>
  Claim C6 as stated fails: \<open>A\<close> calls itself and \<open>B\<close>, and \<open>B\<close> calls \<open>A\<close>; with
  \<open>excludeRoot\<close> the traversal visits both, and the document is empty: the source of
  \<open>A\<close> and the source of \<open>B\<close> are not in it.
\<close>

theorem cycles_excluded_counterexample:
  "fst (projr (initialize cycWorld ''A'')) = SigAt 0
   \<and> SigAt 0 \<in> set (callees (snd (projr (initialize cycWorld ''A''))) (SigAt 0))
   \<and> SigAt 1 \<in> set (callees (snd (projr (initialize cycWorld ''A''))) (SigAt 0))
   \<and> SigAt 0 \<in> set (callees (snd (projr (initialize cycWorld ''A''))) (SigAt 1))
   \<and> \<not> isl (traverse cycWorld ''A'' True)
   \<and> seen (projr (traverse cycWorld ''A'' True)) (SigAt 0)
   \<and> seen (projr (traverse cycWorld ''A'' True)) (SigAt 1)
   \<and> Parse cycWorld ''.'' ''A'' True True = Inr []
   \<and> Parse cycWorld ''.'' ''A'' True False = Inr []"
  by code_simp

text \<open>
  Claim C2, as amended.  The document of \<open>Parse\<close> is \<open>toString\<close> of the state that
  the traversal returns.  With \<open>excludeRoot\<close> the traversal has the budget 6; the
  included functions are the visited functions outside the package of the entry point,
  and the visited functions are at call-distance at most 5 from it.  Without
  \<open>excludeRoot\<close> the budget is 5; the included functions are the visited functions,
  the entry point among them, all at call-distance at most 4.  When a signature has at
  most one declaration, a list \<open>vs\<close> of distinct signatures lists the visited
  functions, the document is the one of the included functions of \<open>vs\<close>, and the
  source of each included function, after a newline, is a part of it.
\<close>

theorem exclude_root_budget:
  assumes "initialize w funcName = Inr (funcSig, index)"
    and "traverse w funcName excludeRoot = Inr p"
  shows "(\<forall>dir cur codeOnly. getwd w = Some cur \<and> chdir w dir \<and> chdir w cur \<longrightarrow>
            Parse w dir funcName excludeRoot codeOnly = Inr (toString p excludeRoot codeOnly))
       \<and> (excludeRoot \<longrightarrow>
            (\<forall>s. included p True s = (seen p s \<and> pkgOf index s \<noteq> pkgOf index funcSig))
            \<and> seenSet p \<subseteq> within index 5 funcSig)
       \<and> (\<not> excludeRoot \<longrightarrow>
            (\<forall>s. included p False s = seen p s) \<and> seenSet p \<subseteq> within index 4 funcSig
            \<and> (funcSig \<noteq> NilSig \<longrightarrow> included p False funcSig))
       \<and> (uniqueDecls index \<longrightarrow>
            (\<exists>vs. distinct vs \<and> set vs = seenSet p
               \<and> (\<forall>codeOnly. toString p excludeRoot codeOnly
                    = document (files w) index (pkgOrder p)
                        (filter (included p excludeRoot) vs) excludeRoot codeOnly))
            \<and> (\<forall>s codeOnly. included p excludeRoot s \<longrightarrow>
                 (\<exists>f fn src pre post. index s = Some f
                    \<and> matching s (Decls (file' f)) = [fn]
                    \<and> extractSourceCode (files w) fn = Inr src
                    \<and> toString p excludeRoot codeOnly = pre @ [newline] @ src @ post)))"
proof -
  let ?d = "if excludeRoot then 6 else 5 :: int"
  from assms have r: "processFunction (files w) funcSig ?d (newParser index) = Inr p"
    by (simp add: traverse_def)
  have "wrap64 (?d - 1) = ?d - 1" by (simp add: wrap64_def)
  with walker_depth(1) [of "files w" funcSig ?d "newParser index"] r
  have d: "seenSet p \<subseteq> within index (nat (?d - 1)) funcSig"
    by (simp add: newParser_def seenSet_def)
  have o: "orderly p" using walker_orderly [OF r orderly_newParser] .
  have g: "registered p" using walker_registered [OF r registered_newParser] .
  have par: "\<forall>dir cur codeOnly. getwd w = Some cur \<and> chdir w dir \<and> chdir w cur \<longrightarrow>
            Parse w dir funcName excludeRoot codeOnly = Inr (toString p excludeRoot codeOnly)"
    using Parse_traverse [OF assms(2)] by blast
  have x: "(\<forall>s. included p True s = (seen p s \<and> pkgOf index s \<noteq> pkgOf index funcSig))
            \<and> seenSet p \<subseteq> within index 5 funcSig"
    if excludeRoot
    using that d included_outside_root [OF assms(1) r] by simp
  have y: "(\<forall>s. included p False s = seen p s) \<and> seenSet p \<subseteq> within index 4 funcSig
            \<and> (funcSig \<noteq> NilSig \<longrightarrow> included p False funcSig)"
    if n: "\<not> excludeRoot"
  proof -
    have "included p False funcSig" if "funcSig \<noteq> NilSig"
    proof -
      from initialize_entry [OF assms(1) that] obtain e where "index funcSig = Some e"
        and "matching funcSig (Decls (file' e)) \<noteq> []" by blast
      with processFunction_includes [OF r, of e] have "seen p funcSig"
        by (simp add: newParser_def)
      with included_all [OF g o] show ?thesis by simp
    qed
    with n d included_all [OF g o] show ?thesis by simp
  qed
  have z: "(\<exists>vs. distinct vs \<and> set vs = seenSet p
               \<and> (\<forall>codeOnly. toString p excludeRoot codeOnly
                    = document (files w) index (pkgOrder p)
                        (filter (included p excludeRoot) vs) excludeRoot codeOnly))
            \<and> (\<forall>s codeOnly. included p excludeRoot s \<longrightarrow>
                 (\<exists>f fn src pre post. index s = Some f
                    \<and> matching s (Decls (file' f)) = [fn]
                    \<and> extractSourceCode (files w) fn = Inr src
                    \<and> toString p excludeRoot codeOnly = pre @ [newline] @ src @ post))"
    if u: "uniqueDecls index"
  proof
    from walker_document [OF r u] obtain vs where v: "accounted (files w) p vs"
      and doc: "\<forall>excludeRoot codeOnly. toString p excludeRoot codeOnly
          = document (files w) index (pkgOrder p) (filter (included p excludeRoot) vs)
              excludeRoot codeOnly"
      by blast
    then show "\<exists>vs. distinct vs \<and> set vs = seenSet p
               \<and> (\<forall>codeOnly. toString p excludeRoot codeOnly
                    = document (files w) index (pkgOrder p)
                        (filter (included p excludeRoot) vs) excludeRoot codeOnly)"
      by (intro exI [of _ vs]) (simp add: accounted_def)
    show "\<forall>s codeOnly. included p excludeRoot s \<longrightarrow>
                 (\<exists>f fn src pre post. index s = Some f
                    \<and> matching s (Decls (file' f)) = [fn]
                    \<and> extractSourceCode (files w) fn = Inr src
                    \<and> toString p excludeRoot codeOnly = pre @ [newline] @ src @ post)"
      using included_source [OF r u] by blast
  qed
  from par x y z show ?thesis by blast
qed

theorem exclude_root_budget_witness:
  "included (projr (traverse depWorld ''E'' True)) True (SigAt 1)
   \<and> \<not> included (projr (traverse depWorld ''E'' True)) True (SigAt 0)
   \<and> seenSet (projr (traverse depWorld ''E'' True))
       \<subseteq> within [SigAt 0 \<mapsto> \<lparr> file' = \<lparr> Decls = [exFunc ''m.go'' ''E'' 0 1 [1]] \<rparr>, pkg = depRoot \<rparr>,
                  SigAt 1 \<mapsto> \<lparr> file' = \<lparr> Decls = [exFunc ''d.go'' ''A'' 1 1 []] \<rparr>, pkg = depLib \<rparr>]
            5 (SigAt 0)
   \<and> (\<exists>f fn src pre post.
         funcToFileAndPkg (projr (traverse depWorld ''E'' True)) (SigAt 1) = Some f
       \<and> matching (SigAt 1) (Decls (file' f)) = [fn]
       \<and> extractSourceCode (files depWorld) fn = Inr src
       \<and> toString (projr (traverse depWorld ''E'' True)) True True = pre @ [newline] @ src @ post)
   \<and> Parse depWorld ''.'' ''E'' True True
       = Inr (toString (projr (traverse depWorld ''E'' True)) True True)
   \<and> Parse depWorld ''.'' ''E'' True True = Inr ([newline] @ ''A'' @ [newline])"
proof -
  let ?p = "projr (traverse depWorld ''E'' True)"
  let ?index = "[SigAt 0 \<mapsto> \<lparr> file' = \<lparr> Decls = [exFunc ''m.go'' ''E'' 0 1 [1]] \<rparr>, pkg = depRoot \<rparr>,
                  SigAt 1 \<mapsto> \<lparr> file' = \<lparr> Decls = [exFunc ''d.go'' ''A'' 1 1 []] \<rparr>, pkg = depLib \<rparr>]"
  have "\<not> isl (traverse depWorld ''E'' True)" by code_simp
  then have t: "traverse depWorld ''E'' True = Inr ?p" by simp
  have s: "seen ?p (SigAt 0) \<and> seen ?p (SigAt 1)" by code_simp
  have k: "depRoot \<noteq> depLib" by (simp add: depRoot_def depLib_def exPkg_def)
  have e: "getwd depWorld = Some ''/'' \<and> chdir depWorld ''.'' \<and> chdir depWorld ''/''"
    by (simp add: depWorld_def exWorld_def)
  have o: "Parse depWorld ''.'' ''E'' True True = Inr ([newline] @ ''A'' @ [newline])"
    by code_simp
  from t depWorld_init have "processFunction (files depWorld) (SigAt 0) 6 (newParser ?index) = Inr ?p"
    by (simp add: traverse_def)
  with walker_index(1) have ip: "funcToFileAndPkg ?p = ?index"
    by (fastforce simp: newParser_def)
  note x = exclude_root_budget [OF depWorld_init t]
  from x s k have i: "included ?p True (SigAt 1) \<and> \<not> included ?p True (SigAt 0)"
    by (simp add: pkgOf_def)
  from x have b: "seenSet ?p \<subseteq> within ?index 5 (SigAt 0)"
    by simp
  from x dep_unique have "\<forall>s codeOnly. included ?p True s \<longrightarrow>
       (\<exists>f fn src pre post. ?index s = Some f
          \<and> matching s (Decls (file' f)) = [fn]
          \<and> extractSourceCode (files depWorld) fn = Inr src
          \<and> toString ?p True codeOnly = pre @ [newline] @ src @ post)"
    by blast
  with i have c: "\<exists>f fn src pre post. ?index (SigAt 1) = Some f
          \<and> matching (SigAt 1) (Decls (file' f)) = [fn]
          \<and> extractSourceCode (files depWorld) fn = Inr src
          \<and> toString ?p True True = pre @ [newline] @ src @ post"
    by blast
  from x e have d: "Parse depWorld ''.'' ''E'' True True = Inr (toString ?p True True)"
    by blast
  from i b c d o show ?thesis unfolding ip by blast
qed

text \<open>
  Claim C2 as stated fails, and neither set holds the other.  On the chain, \<open>F5\<close> is
  included with \<open>excludeRoot\<close> and the budget 6, and is not included without
  \<open>excludeRoot\<close> and with the budget 5.  In the module with the shortcut, \<open>Z\<close> is
  included without \<open>excludeRoot\<close> and with the budget 5, and is not visited with
  \<open>excludeRoot\<close> and the budget 6: there \<open>Y\<close>, which calls \<open>Z\<close>, is first visited
  at the end of the longer way, with the depth 1.
\<close>

theorem exclude_root_compensation_counterexample:
  "\<not> isl (traverse chainWorld ''E'' True)
   \<and> \<not> isl (traverse chainWorld ''E'' False)
   \<and> fst (projr (initialize chainWorld ''E'')) = SigAt 0
   \<and> included (projr (traverse chainWorld ''E'' True)) True (SigAt 5)
   \<and> \<not> included (projr (traverse chainWorld ''E'' False)) False (SigAt 5)
   \<and> Parse chainWorld ''.'' ''E'' True True =
       Inr ([newline] @ ''1'' @ [newline, newline] @ ''2'' @ [newline, newline] @ ''3''
            @ [newline, newline] @ ''4'' @ [newline, newline] @ ''5'' @ [newline])
   \<and> Parse chainWorld ''.'' ''E'' False True =
       Inr ([newline] @ ''E'' @ [newline, newline, newline] @ ''// lib'' @ [newline, newline]
            @ ''1'' @ [newline, newline] @ ''2'' @ [newline, newline] @ ''3''
            @ [newline, newline] @ ''4'' @ [newline])
   \<and> \<not> isl (traverse shortcutWorld ''E'' True)
   \<and> \<not> isl (traverse shortcutWorld ''E'' False)
   \<and> fst (projr (initialize shortcutWorld ''E'')) = SigAt 0
   \<and> included (projr (traverse shortcutWorld ''E'' False)) False (SigAt 6)
   \<and> \<not> included (projr (traverse shortcutWorld ''E'' True)) True (SigAt 6)
   \<and> \<not> seen (projr (traverse shortcutWorld ''E'' True)) (SigAt 6)
   \<and> Parse shortcutWorld ''.'' ''E'' False True =
       Inr ([newline] @ ''E'' @ [newline, newline, newline] @ ''// lib'' @ [newline, newline]
            @ ''A'' @ [newline, newline] @ ''B'' @ [newline, newline] @ ''C''
            @ [newline, newline] @ ''D'' @ [newline, newline] @ ''Y''
            @ [newline, newline] @ ''Z'' @ [newline])
   \<and> Parse shortcutWorld ''.'' ''E'' True True =
       Inr ([newline] @ ''A'' @ [newline, newline] @ ''B'' @ [newline, newline] @ ''C''
            @ [newline, newline] @ ''D'' @ [newline, newline] @ ''Y'' @ [newline])"
  by code_simp

section \<open>Claims about Parse\<close>

text \<open>
  Claim C9.  \<open>Parse\<close> is a function of the snapshot (the content of \<open>go.mod\<close>, the
  loaded packages, the files) and of its arguments, and it never ranges over a map; the
  addresses of the signatures, which differ from run to run, do not influence it: for
  every bijection \<open>r\<close> of the addresses, \<open>Parse\<close> returns on the renamed snapshot what
  it returns on the snapshot, the same document or the same error.
\<close>

theorem address_independence:
  assumes "bij r"
  shows "Parse (renWorld r w) funcPkgPath funcName excludeRoot codeOnly
       = Parse w funcPkgPath funcName excludeRoot codeOnly"
proof -
  from assms have i: "inverses r (inv r)" by (rule bij_inverses)
  have e: "(case traverse (renWorld r w) funcName excludeRoot of
           Inl e \<Rightarrow> Inl e | Inr p \<Rightarrow> Inr (toString p excludeRoot codeOnly))
      = (case traverse w funcName excludeRoot of
           Inl e \<Rightarrow> Inl e | Inr p \<Rightarrow> Inr (toString p excludeRoot codeOnly))"
    by (cases "traverse w funcName excludeRoot")
      (simp_all add: traverse_ren [OF i] toString_ren [OF i])
  show ?thesis unfolding Parse_def renWorld_sel e by (rule refl)
qed

theorem address_independence_witness:
  "Parse (renWorld swap01 depWorld) ''.'' ''E'' False True
     = Inr ([newline] @ ''E'' @ [newline, newline, newline] @ ''// d'' @ [newline, newline]
            @ ''A'' @ [newline])
   \<and> Parse depWorld ''.'' ''E'' False True
     = Inr ([newline] @ ''E'' @ [newline, newline, newline] @ ''// d'' @ [newline, newline]
            @ ''A'' @ [newline])
   \<and> map_sum id fst (initialize (renWorld swap01 depWorld) ''E'') = Inr (SigAt 1)
   \<and> map_sum id fst (initialize depWorld ''E'') = Inr (SigAt 0)"
proof -
  have "swap01 \<circ> swap01 = id" by (auto simp: swap01_def fun_eq_iff)
  then have b: "bij swap01" using o_bij by blast
  have a: "Parse depWorld ''.'' ''E'' False True
     = Inr ([newline] @ ''E'' @ [newline, newline, newline] @ ''// d'' @ [newline, newline]
            @ ''A'' @ [newline])"
    by code_simp
  have c: "map_sum id fst (initialize (renWorld swap01 depWorld) ''E'') = Inr (SigAt 1)"
    by code_simp
  have d: "map_sum id fst (initialize depWorld ''E'') = Inr (SigAt 0)"
    by code_simp
  from address_independence [OF b, of depWorld "''.''" "''E''" False True] a c d
  show ?thesis by simp
qed

end
